theory Spec2Isabelle
  imports Main "HOL-Library.Multiset" "HOL-Library.Monad_Syntax" "HOL-Library.Log_Nat"
begin

section \<open>JavaScript numbers\<close>

text \<open>
  A number of the language is an IEEE 754 double. Every finite double is a whole
  multiple of the smallest positive one, which is 2 to the power -1074, so \<open>Fin k\<close>
  stands for \<open>k\<close> times that unit and \<open>Fin 0\<close> for the positive zero. The doubles among
  the \<open>Fin k\<close> are those where \<open>k\<close> has at most 53 significant bits and the value is
  below 2 to the power 1024; the operations are defined for every \<open>k\<close>.
\<close>

datatype number = NaN | PosInfinity | NegInfinity | NegZero | Fin int

text \<open>
  In units of the smallest positive double: the value 1, and 2 to the power 1024, the
  least magnitude that is no finite double any more.
\<close>

definition unit_scale :: int where
  "unit_scale = 2 ^ 1074"

definition overflow_threshold :: int where
  "overflow_threshold = 2 ^ 2098"

text \<open>The whole number \<open>n\<close> as a number of the language.\<close>

definition num_of_int :: "int \<Rightarrow> number" where
  "num_of_int n = Fin (n * unit_scale)"

text \<open>
  Rounding to nearest, ties to even: \<open>a\<close> divided by \<open>2 ^ s\<close>, as a whole number.
\<close>

definition round_nearest_even :: "int \<Rightarrow> nat \<Rightarrow> int" where
  "round_nearest_even a s =
     (let q = a div 2 ^ s; r = a mod 2 ^ s
      in if 2 * r < 2 ^ s then q
         else if 2 ^ s < 2 * r then q + 1
         else if even q then q else q + 1)"

text \<open>A positive magnitude rounded to 53 significant bits.\<close>

definition round_magnitude :: "int \<Rightarrow> int" where
  "round_magnitude a =
     (if bitlen a \<le> 53 then a
      else let s = nat (bitlen a - 53) in round_nearest_even a s * 2 ^ s)"

text \<open>
  The double nearest to an exact result: the magnitude is rounded, and a rounded
  magnitude of 2 to the power 1024 or more is an infinity.
\<close>

definition round_double :: "int \<Rightarrow> number" where
  "round_double k =
     (let a = round_magnitude \<bar>k\<bar>
      in if overflow_threshold \<le> a then (if k < 0 then NegInfinity else PosInfinity)
         else Fin (if k < 0 then - a else a))"

text \<open>
  \<^verbatim>\<open>x + y\<close>. Infinities of opposite sign give NaN; the negative zero added to itself
  stays, and otherwise adds nothing; an exact sum of zero is the positive zero.
\<close>

fun num_add :: "number \<Rightarrow> number \<Rightarrow> number" where
  "num_add NaN y = NaN"
| "num_add x NaN = NaN"
| "num_add PosInfinity NegInfinity = NaN"
| "num_add NegInfinity PosInfinity = NaN"
| "num_add PosInfinity y = PosInfinity"
| "num_add x PosInfinity = PosInfinity"
| "num_add NegInfinity y = NegInfinity"
| "num_add x NegInfinity = NegInfinity"
| "num_add NegZero y = y"
| "num_add x NegZero = x"
| "num_add (Fin a) (Fin b) = round_double (a + b)"

fun num_neg :: "number \<Rightarrow> number" where
  "num_neg NaN = NaN"
| "num_neg PosInfinity = NegInfinity"
| "num_neg NegInfinity = PosInfinity"
| "num_neg NegZero = Fin 0"
| "num_neg (Fin a) = (if a = 0 then NegZero else Fin (- a))"

text \<open>\<^verbatim>\<open>x - y\<close> is \<^verbatim>\<open>x + (-y)\<close>.\<close>

definition num_sub :: "number \<Rightarrow> number \<Rightarrow> number" where
  "num_sub x y = num_add x (num_neg y)"

text \<open>
  What a sort makes of the number its comparator returns: NaN counts as zero, and
  then only the sign matters.
\<close>

fun num_sgn :: "number \<Rightarrow> int" where
  "num_sgn NaN = 0"
| "num_sgn PosInfinity = 1"
| "num_sgn NegInfinity = - 1"
| "num_sgn NegZero = 0"
| "num_sgn (Fin k) = sgn k"

text \<open>\<^verbatim>\<open>x <= y\<close>: false when either side is NaN; the two zeros are equal.\<close>

fun num_le :: "number \<Rightarrow> number \<Rightarrow> bool" where
  "num_le NaN y = False"
| "num_le x NaN = False"
| "num_le NegInfinity y = True"
| "num_le x PosInfinity = True"
| "num_le PosInfinity y = False"
| "num_le x NegInfinity = False"
| "num_le NegZero NegZero = True"
| "num_le NegZero (Fin b) = (0 \<le> b)"
| "num_le (Fin a) NegZero = (a \<le> 0)"
| "num_le (Fin a) (Fin b) = (a \<le> b)"

text \<open>Truthiness of a number: NaN and the two zeros are falsy.\<close>

fun truthy_number :: "number \<Rightarrow> bool" where
  "truthy_number NaN = False"
| "truthy_number NegZero = False"
| "truthy_number (Fin k) = (k \<noteq> 0)"
| "truthy_number x = True"

section \<open>TopSQL list detail table\<close>

text \<open>
  The model follows \<^verbatim>\<open>ListDetailTable.tsx\<close>. An optional field \<^verbatim>\<open>f?: T\<close> is a
  field of type \<open>T option\<close>, \<open>None\<close> standing for \<^verbatim>\<open>undefined\<close>.
\<close>

subsection \<open>Data\<close>

text \<open>
  Modelled from the spec: the declaration of \<^verbatim>\<open>TopsqlSummaryPlanItem\<close> (imported from
  \<^verbatim>\<open>@lib/client\<close>) is not among the sources. The spec gives a plan item a plan digest
  that may be absent, an array of CPU-time samples in milliseconds and four rate fields;
  these are also exactly the fields the component reads.
\<close>

record TopsqlSummaryPlanItem =
  plan_digest :: "string option"
  cpu_time_ms :: "number list option"
  exec_count_per_sec :: "number option"
  scan_records_per_sec :: "number option"
  scan_indexes_per_sec :: "number option"
  duration_per_exec_ms :: "number option"

text \<open>\<^verbatim>\<open>type PlanRecord = { cpuTime: number } & TopsqlSummaryPlanItem\<close>\<close>

record PlanRecord = TopsqlSummaryPlanItem +
  cpuTime :: number

text \<open>
  Modelled from the spec: the declaration of \<^verbatim>\<open>SQLRecord\<close> (imported from
  \<^verbatim>\<open>../ListTable\<close>) is not among the sources. The spec gives it the flag
  \<^verbatim>\<open>is_other\<close>, the list of its plans and top-level fields of the statement as a
  whole; the component reads \<^verbatim>\<open>is_other\<close> and \<^verbatim>\<open>plans\<close>, and the row that
  summarises the statement is built from the record alone, so the record carries the
  statement-level counterpart of every field of a row.
\<close>

record SQLRecord = PlanRecord +
  is_other :: "bool option"
  plans :: "TopsqlSummaryPlanItem list option"

text \<open>The value returned by \<^verbatim>\<open>usePlanRecord\<close>.\<close>

record PlanRecords =
  isMultiPlans :: bool
  records :: "PlanRecord list"

subsection \<open>Special records\<close>

text \<open>
  Modelled from the spec: the module \<^verbatim>\<open>@lib/apps/TopSQL/utils/specialRecord\<close>
  (\<^verbatim>\<open>convertNoPlanRecord\<close>, \<^verbatim>\<open>createOverallRecord\<close>, \<^verbatim>\<open>isNoPlanRecord\<close>,
  \<^verbatim>\<open>isOverallRecord\<close>) is not among the sources. After the spec, a plan whose digest is
  absent or empty is marked as the "no-plan" variant, its synthetic field filled with a
  placeholder; the "overall" record summarises the whole statement and is no plan of its
  own; each variant is recognised by its own predicate. The table keys every row,
  the synthetic ones too, by \<^verbatim>\<open>plan_digest!\<close>, so the placeholder sits in the digest.
  The spec does not give the two literals; the names it uses for the variants stand
  for them here.
\<close>

definition OVERALL_LABEL :: string where
  "OVERALL_LABEL = ''overall''"

text \<open>Modelled from the spec: the placeholder digest of a "no-plan" row.\<close>

definition NO_PLAN_LABEL :: string where
  "NO_PLAN_LABEL = ''no-plan''"

text \<open>Truthiness of an optional string: \<^verbatim>\<open>undefined\<close> and the empty string are falsy.\<close>

fun truthy_string :: "string option \<Rightarrow> bool" where
  "truthy_string None = False"
| "truthy_string (Some s) = (s \<noteq> [])"

text \<open>Truthiness of an optional boolean.\<close>

fun truthy_bool :: "bool option \<Rightarrow> bool" where
  "truthy_bool None = False"
| "truthy_bool (Some b) = b"

text \<open>
  Modelled from the spec: \<^verbatim>\<open>isOverallRecord\<close>, the predicate that recognises the
  "overall" row.
\<close>

definition isOverallRecord :: "PlanRecord \<Rightarrow> bool" where
  "isOverallRecord r = (plan_digest r = Some OVERALL_LABEL)"

text \<open>
  Modelled from the spec: \<^verbatim>\<open>isNoPlanRecord\<close>, the predicate that recognises a
  "no-plan" row.
\<close>

definition isNoPlanRecord :: "PlanRecord \<Rightarrow> bool" where
  "isNoPlanRecord r = (plan_digest r = Some NO_PLAN_LABEL)"

text \<open>
  Modelled from the spec: \<^verbatim>\<open>convertNoPlanRecord\<close>. A row whose digest is absent or
  empty becomes the "no-plan" variant, the placeholder in its digest; any other row is
  returned as it is.
\<close>

definition convertNoPlanRecord :: "PlanRecord \<Rightarrow> PlanRecord" where
  "convertNoPlanRecord r =
     (if truthy_string (plan_digest r) then r
      else r\<lparr>plan_digest := Some NO_PLAN_LABEL\<rparr>)"

text \<open>
  Modelled from the spec: \<^verbatim>\<open>createOverallRecord\<close>. The row summarises the whole
  record, not one of its plans: it has the statement-level values of the record and the
  "overall" placeholder as its digest.
\<close>

definition createOverallRecord :: "SQLRecord \<Rightarrow> PlanRecord" where
  "createOverallRecord record =
     \<lparr> plan_digest = Some OVERALL_LABEL,
       cpu_time_ms = cpu_time_ms record,
       exec_count_per_sec = exec_count_per_sec record,
       scan_records_per_sec = scan_records_per_sec record,
       scan_indexes_per_sec = scan_indexes_per_sec record,
       duration_per_exec_ms = duration_per_exec_ms record,
       cpuTime = cpuTime record \<rparr>"

subsection \<open>The derivation of the plan records\<close>

text \<open>
  \<^verbatim>\<open>p.cpu_time_ms?.reduce((pt, t) => pt + t, 0) || 0\<close>: the fold from the left starting
  at 0; an absent array gives \<^verbatim>\<open>undefined\<close>, and a falsy left operand of \<^verbatim>\<open>||\<close>
  (\<^verbatim>\<open>undefined\<close>, a zero or NaN) gives the right operand 0.
\<close>

definition sum_cpu_time :: "number list option \<Rightarrow> number" where
  "sum_cpu_time ts =
     (case ts of
        None \<Rightarrow> Fin 0
      | Some xs \<Rightarrow>
          (let s = foldl (\<lambda>pt t. num_add pt t) (Fin 0) xs
           in if truthy_number s then s else Fin 0))"

text \<open>The callback of the first \<^verbatim>\<open>map\<close>: \<^verbatim>\<open>{ ...p, cpuTime }\<close>.\<close>

definition with_cpuTime :: "TopsqlSummaryPlanItem \<Rightarrow> PlanRecord" where
  "with_cpuTime p =
     \<lparr> plan_digest = plan_digest p,
       cpu_time_ms = cpu_time_ms p,
       exec_count_per_sec = exec_count_per_sec p,
       scan_records_per_sec = scan_records_per_sec p,
       scan_indexes_per_sec = scan_indexes_per_sec p,
       duration_per_exec_ms = duration_per_exec_ms p,
       cpuTime = sum_cpu_time (cpu_time_ms p) \<rparr>"

text \<open>The comparator of the sort: \<^verbatim>\<open>(a, b) => b.cpuTime - a.cpuTime\<close>.\<close>

definition by_cpuTime_desc :: "PlanRecord \<Rightarrow> PlanRecord \<Rightarrow> number" where
  "by_cpuTime_desc a b = num_sub (cpuTime b) (cpuTime a)"

text \<open>
  Modelled from the spec: \<^verbatim>\<open>Array.prototype.sort(compareFn)\<close> is the engine's and
  not among the sources. The spec has the plans sorted with a stable sort, rows of equal
  value keeping their original relative order; the language standard asks the same of
  the engine (stable since ECMAScript 2019) and has it read the comparator's result as
  a sign, NaN counting as zero. For a comparator that orders the elements consistently
  a stable sort has one possible result, which insertion from the right computes: an
  element goes in front of the first element of the sorted rest that it does not have
  to follow.
\<close>

fun sort_insert :: "('a \<Rightarrow> 'a \<Rightarrow> number) \<Rightarrow> 'a \<Rightarrow> 'a list \<Rightarrow> 'a list" where
  "sort_insert compareFn x [] = [x]"
| "sort_insert compareFn x (y # ys) =
     (if num_sgn (compareFn x y) \<le> 0 then x # y # ys
      else y # sort_insert compareFn x ys)"

text \<open>
  Modelled from the spec: the sort itself, the elements inserted one by one from the
  right end of the array.
\<close>

fun array_sort :: "('a \<Rightarrow> 'a \<Rightarrow> number) \<Rightarrow> 'a list \<Rightarrow> 'a list" where
  "array_sort compareFn [] = []"
| "array_sort compareFn (x # xs) = sort_insert compareFn x (array_sort compareFn xs)"

text \<open>
  \<^verbatim>\<open>usePlanRecord\<close>. The argument is optional because the code guards it with
  \<^verbatim>\<open>record?.plans?.length\<close>; \<^verbatim>\<open>useMemo\<close> only caches the value per record.
\<close>

definition usePlanRecord :: "SQLRecord option \<Rightarrow> PlanRecords" where
  "usePlanRecord record =
     (case record of
        None \<Rightarrow> \<lparr> isMultiPlans = False, records = [] \<rparr>
      | Some r \<Rightarrow>
         (case plans r of
            None \<Rightarrow> \<lparr> isMultiPlans = False, records = [] \<rparr>
          | Some ps \<Rightarrow>
             if length ps = 0 then \<lparr> isMultiPlans = False, records = [] \<rparr>
             else
               let isMulti = length ps > 1;
                   recs = map convertNoPlanRecord
                            (array_sort by_cpuTime_desc (map with_cpuTime ps))
               in \<lparr> isMultiPlans = isMulti,
                    records = (if isMulti then createOverallRecord r # recs else recs) \<rparr>))"

subsection \<open>The component\<close>

text \<open>The predicate handed to the selection hook as \<^verbatim>\<open>canSelectItem\<close>.\<close>

definition canSelectItem :: "PlanRecord \<Rightarrow> bool" where
  "canSelectItem r = (\<not> isNoPlanRecord r \<and> \<not> isOverallRecord r)"

text \<open>\<^verbatim>\<open>xs[0]\<close>: the first element, \<^verbatim>\<open>undefined\<close> on an empty array.\<close>

fun first_item :: "'a list \<Rightarrow> 'a option" where
  "first_item [] = None"
| "first_item (x # xs) = Some x"

text \<open>
  The memoised \<^verbatim>\<open>planRecord\<close> of the component. The selected record comes from the
  hook \<^verbatim>\<open>useRecordSelection\<close>, which is not among the sources, so it is an argument.
\<close>

definition planRecord :: "PlanRecords \<Rightarrow> PlanRecord option \<Rightarrow> PlanRecord option" where
  "planRecord derived selectedRecord =
     (if isMultiPlans derived then selectedRecord else first_item (records derived))"

datatype InstanceType = tidb | tikv

text \<open>
  The keys of the table columns: the three entries guarded by the instance type are
  \<^verbatim>\<open>false\<close> when the guard fails and are filtered out.
\<close>

definition tableColumns :: "InstanceType \<Rightarrow> string list" where
  "tableColumns instanceType =
     [''cpuTime'', ''plan'', ''exec_count_per_sec'']
     @ (if instanceType = tikv then [''scan_records_per_sec''] else [])
     @ (if instanceType = tikv then [''scan_indexes_per_sec''] else [])
     @ (if instanceType = tidb then [''latency''] else [])"

text \<open>The elements the component returns, in order.\<close>

datatype Element =
  CardTable (items: "PlanRecord list") (columns: "string list")
| ListDetailContent (sqlRecord: SQLRecord) (shownPlan: "PlanRecord option")

definition ListDetailTable ::
    "SQLRecord \<Rightarrow> InstanceType \<Rightarrow> PlanRecord option \<Rightarrow> Element list" where
  "ListDetailTable record instanceType selectedRecord =
     (let derived = usePlanRecord (Some record)
      in CardTable (records derived) (tableColumns instanceType)
         # (if \<not> truthy_bool (is_other record)
            then [ListDetailContent record (planRecord derived selectedRecord)]
            else []))"

fun isDetailContent :: "Element \<Rightarrow> bool" where
  "isDetailContent (ListDetailContent r p) = True"
| "isDetailContent (CardTable rs cs) = False"

section \<open>Overview context\<close>

text \<open>
  React's \<^verbatim>\<open>createContext\<close> and \<^verbatim>\<open>useContext\<close>: a context holds its default value,
  and a consumer reads the value of the nearest enclosing provider, or the default
  where no provider encloses it. The enclosing providers' values are listed nearest
  first.
\<close>

datatype 'a Context = Context (defaultValue: 'a)

definition createContext :: "'a \<Rightarrow> 'a Context" where
  "createContext d = Context d"

fun useContext :: "'a Context \<Rightarrow> 'a list \<Rightarrow> 'a" where
  "useContext c [] = defaultValue c"
| "useContext c (v # vs) = v"

text \<open>
  \<^verbatim>\<open>createContext<IOverviewContext | null>(null)\<close>; the value type, a data source and
  a configuration, stays a parameter, \<open>None\<close> standing for \<^verbatim>\<open>null\<close>.
\<close>

definition OverviewContext :: "'v option Context" where
  "OverviewContext = createContext None"

section \<open>The derivation on a store\<close>

text \<open>
  The functions above take and return values, so nothing in them can change an input.
  The code works on objects and arrays that are shared by reference: \<^verbatim>\<open>sort\<close> and
  \<^verbatim>\<open>unshift\<close> change an array in place, and the spread \<^verbatim>\<open>{ ...p, cpuTime }\<close> copies
  the fields of a plan but shares the \<^verbatim>\<open>cpu_time_ms\<close> array it points to. To say what
  the derivation leaves alone, this section follows the code once more on an explicit
  store: a list of cells, an address being an index into it, a new cell going to the
  end.
\<close>

type_synonym addr = nat

text \<open>
  An object with the properties the code knows, each absent or present; the properties
  that hold an array hold its address.
\<close>

record obj =
  obj_plan_digest :: "string option"
  obj_cpu_time_ms :: "addr option"
  obj_exec_count_per_sec :: "number option"
  obj_scan_records_per_sec :: "number option"
  obj_scan_indexes_per_sec :: "number option"
  obj_duration_per_exec_ms :: "number option"
  obj_cpuTime :: "number option"
  obj_is_other :: "bool option"
  obj_plans :: "addr option"

datatype cell = Numbers "number list" | Refs "addr list" | Object obj

type_synonym heap = "cell list"

definition alloc :: "heap \<Rightarrow> cell \<Rightarrow> heap \<times> addr" where
  "alloc h c = (h @ [c], length h)"

definition lookup :: "heap \<Rightarrow> addr \<Rightarrow> cell option" where
  "lookup h a = (if a < length h then Some (h ! a) else None)"

definition store :: "heap \<Rightarrow> addr \<Rightarrow> cell \<Rightarrow> heap" where
  "store h a c = h[a := c]"

text \<open>
  Typed reads. The type checker of the source rules out a read at the wrong type; in
  the model such a read, like one at an address that is not allocated, gives \<open>None\<close>.
\<close>

definition get_object :: "heap \<Rightarrow> addr \<Rightarrow> obj option" where
  "get_object h a = (case lookup h a of Some (Object ob) \<Rightarrow> Some ob | _ \<Rightarrow> None)"

definition get_refs :: "heap \<Rightarrow> addr \<Rightarrow> addr list option" where
  "get_refs h a = (case lookup h a of Some (Refs xs) \<Rightarrow> Some xs | _ \<Rightarrow> None)"

definition get_numbers :: "heap \<Rightarrow> addr \<Rightarrow> number list option" where
  "get_numbers h a = (case lookup h a of Some (Numbers ns) \<Rightarrow> Some ns | _ \<Rightarrow> None)"

text \<open>\<^verbatim>\<open>p.cpu_time_ms?.reduce((pt, t) => pt + t, 0) || 0\<close>, the array read from the store.\<close>

definition sum_cpu_time_h :: "heap \<Rightarrow> addr option \<Rightarrow> number option" where
  "sum_cpu_time_h h ta =
     (case ta of
        None \<Rightarrow> Some (sum_cpu_time None)
      | Some a \<Rightarrow> map_option (\<lambda>ns. sum_cpu_time (Some ns)) (get_numbers h a))"

text \<open>\<^verbatim>\<open>(p) => { ...; return { ...p, cpuTime } }\<close>: a new object.\<close>

definition with_cpuTime_h :: "heap \<Rightarrow> addr \<Rightarrow> (heap \<times> addr) option" where
  "with_cpuTime_h h a =
     do { p \<leftarrow> get_object h a;
          c \<leftarrow> sum_cpu_time_h h (obj_cpu_time_ms p);
          Some (alloc h (Object (p\<lparr>obj_cpuTime := Some c\<rparr>))) }"

text \<open>
  \<^verbatim>\<open>Array.prototype.map\<close>: the callback runs on the elements from left to right, each
  call on the store the calls before it left, and the results go into a new array.
\<close>

fun map_h :: "(heap \<Rightarrow> addr \<Rightarrow> (heap \<times> addr) option) \<Rightarrow> heap \<Rightarrow> addr list
    \<Rightarrow> (heap \<times> addr list) option" where
  "map_h f h [] = Some (h, [])"
| "map_h f h (x # xs) =
     do { (h1, y) \<leftarrow> f h x;
          (h2, ys) \<leftarrow> map_h f h1 xs;
          Some (h2, y # ys) }"

definition array_map_h :: "(heap \<Rightarrow> addr \<Rightarrow> (heap \<times> addr) option) \<Rightarrow> heap \<Rightarrow> addr
    \<Rightarrow> (heap \<times> addr) option" where
  "array_map_h f h a =
     do { xs \<leftarrow> get_refs h a;
          (h1, ys) \<leftarrow> map_h f h xs;
          Some (alloc h1 (Refs ys)) }"

text \<open>The \<^verbatim>\<open>cpuTime\<close> property of the object at an address.\<close>

definition cpuTime_at :: "heap \<Rightarrow> addr \<Rightarrow> number option" where
  "cpuTime_at h a = do { ob \<leftarrow> get_object h a; obj_cpuTime ob }"

definition cpuTime_of :: "heap \<Rightarrow> addr \<Rightarrow> number" where
  "cpuTime_of h a = (case cpuTime_at h a of Some c \<Rightarrow> c | None \<Rightarrow> Fin 0)"

text \<open>
  \<^verbatim>\<open>.sort((a, b) => b.cpuTime - a.cpuTime)\<close>: the array at the address is sorted in
  place. The comparator reads the \<^verbatim>\<open>cpuTime\<close> of its arguments from the store; the
  sort is only defined where every element has one.
\<close>

definition array_sort_h :: "heap \<Rightarrow> addr \<Rightarrow> heap option" where
  "array_sort_h h a =
     do { xs \<leftarrow> get_refs h a;
          if list_all (\<lambda>x. cpuTime_at h x \<noteq> None) xs
          then Some (store h a
                 (Refs (array_sort (\<lambda>x y. num_sub (cpuTime_of h y) (cpuTime_of h x)) xs)))
          else None }"

text \<open>
  Modelled from the spec: \<^verbatim>\<open>convertNoPlanRecord\<close> on the store. The spec has the
  conversion mark the record it is given; here it writes the placeholder into that very
  object and returns it, the reading under which the least is left alone.
\<close>

definition convertNoPlanRecord_h :: "heap \<Rightarrow> addr \<Rightarrow> (heap \<times> addr) option" where
  "convertNoPlanRecord_h h a =
     do { r \<leftarrow> get_object h a;
          if truthy_string (obj_plan_digest r) then Some (h, a)
          else Some (store h a (Object (r\<lparr>obj_plan_digest := Some NO_PLAN_LABEL\<rparr>)), a) }"

text \<open>
  Modelled from the spec: \<^verbatim>\<open>createOverallRecord\<close> on the store, a new object that
  summarises the record.
\<close>

definition createOverallRecord_h :: "heap \<Rightarrow> addr \<Rightarrow> (heap \<times> addr) option" where
  "createOverallRecord_h h a =
     do { r \<leftarrow> get_object h a;
          Some (alloc h (Object
            \<lparr> obj_plan_digest = Some OVERALL_LABEL,
              obj_cpu_time_ms = obj_cpu_time_ms r,
              obj_exec_count_per_sec = obj_exec_count_per_sec r,
              obj_scan_records_per_sec = obj_scan_records_per_sec r,
              obj_scan_indexes_per_sec = obj_scan_indexes_per_sec r,
              obj_duration_per_exec_ms = obj_duration_per_exec_ms r,
              obj_cpuTime = obj_cpuTime r,
              obj_is_other = None,
              obj_plans = None \<rparr>)) }"

text \<open>\<^verbatim>\<open>records.unshift(x)\<close>: the array at the address gets \<open>x\<close> in front, in place.\<close>

definition unshift_h :: "heap \<Rightarrow> addr \<Rightarrow> addr \<Rightarrow> heap option" where
  "unshift_h h a x = do { xs \<leftarrow> get_refs h a; Some (store h a (Refs (x # xs))) }"

text \<open>\<^verbatim>\<open>return { isMultiPlans: false, records: [] }\<close>: the empty array is a new one.\<close>

definition no_records_h :: "heap \<Rightarrow> (heap \<times> bool \<times> addr) option" where
  "no_records_h h = (let (h1, recs) = alloc h (Refs []) in Some (h1, False, recs))"

text \<open>
  \<^verbatim>\<open>usePlanRecord\<close> on the store: the new store, \<^verbatim>\<open>isMultiPlans\<close> and the address of
  the \<^verbatim>\<open>records\<close> array.
\<close>

definition usePlanRecord_h :: "heap \<Rightarrow> addr option \<Rightarrow> (heap \<times> bool \<times> addr) option" where
  "usePlanRecord_h h record =
     (case record of
        None \<Rightarrow> no_records_h h
      | Some ra \<Rightarrow>
          do { r \<leftarrow> get_object h ra;
               case obj_plans r of
                 None \<Rightarrow> no_records_h h
               | Some pa \<Rightarrow>
                   do { ps \<leftarrow> get_refs h pa;
                        if length ps = 0 then no_records_h h
                        else
                          do { let isMulti = length ps > 1;
                               let (h1, plans) = alloc h (Refs ps);
                               (h2, mapped) \<leftarrow> array_map_h with_cpuTime_h h1 plans;
                               h3 \<leftarrow> array_sort_h h2 mapped;
                               (h4, recs) \<leftarrow> array_map_h convertNoPlanRecord_h h3 mapped;
                               if isMulti
                               then do { (h5, overall) \<leftarrow> createOverallRecord_h h4 ra;
                                         h6 \<leftarrow> unshift_h h5 recs overall;
                                         Some (h6, isMulti, recs) }
                               else Some (h4, isMulti, recs) } } })"

subsection \<open>Reading values back from the store\<close>

definition read_numbers :: "heap \<Rightarrow> addr option \<Rightarrow> number list option option" where
  "read_numbers h ta =
     (case ta of None \<Rightarrow> Some None | Some a \<Rightarrow> map_option Some (get_numbers h a))"

definition read_plan :: "heap \<Rightarrow> addr \<Rightarrow> TopsqlSummaryPlanItem option" where
  "read_plan h a =
     do { ob \<leftarrow> get_object h a;
          ts \<leftarrow> read_numbers h (obj_cpu_time_ms ob);
          Some \<lparr> plan_digest = obj_plan_digest ob,
                 cpu_time_ms = ts,
                 exec_count_per_sec = obj_exec_count_per_sec ob,
                 scan_records_per_sec = obj_scan_records_per_sec ob,
                 scan_indexes_per_sec = obj_scan_indexes_per_sec ob,
                 duration_per_exec_ms = obj_duration_per_exec_ms ob \<rparr> }"

definition read_row :: "heap \<Rightarrow> addr \<Rightarrow> PlanRecord option" where
  "read_row h a =
     do { ob \<leftarrow> get_object h a;
          ts \<leftarrow> read_numbers h (obj_cpu_time_ms ob);
          c \<leftarrow> obj_cpuTime ob;
          Some \<lparr> plan_digest = obj_plan_digest ob,
                 cpu_time_ms = ts,
                 exec_count_per_sec = obj_exec_count_per_sec ob,
                 scan_records_per_sec = obj_scan_records_per_sec ob,
                 scan_indexes_per_sec = obj_scan_indexes_per_sec ob,
                 duration_per_exec_ms = obj_duration_per_exec_ms ob,
                 cpuTime = c \<rparr> }"

fun read_all :: "(heap \<Rightarrow> addr \<Rightarrow> 'a option) \<Rightarrow> heap \<Rightarrow> addr list \<Rightarrow> 'a list option" where
  "read_all rd h [] = Some []"
| "read_all rd h (a # as) =
     do { x \<leftarrow> rd h a; xs \<leftarrow> read_all rd h as; Some (x # xs) }"

definition read_plans :: "heap \<Rightarrow> addr option \<Rightarrow> TopsqlSummaryPlanItem list option option" where
  "read_plans h pa =
     (case pa of
        None \<Rightarrow> Some None
      | Some a \<Rightarrow> do { xs \<leftarrow> get_refs h a; map_option Some (read_all read_plan h xs) })"

definition read_rows :: "heap \<Rightarrow> addr \<Rightarrow> PlanRecord list option" where
  "read_rows h a = do { xs \<leftarrow> get_refs h a; read_all read_row h xs }"

definition read_record :: "heap \<Rightarrow> addr \<Rightarrow> SQLRecord option" where
  "read_record h a =
     do { ob \<leftarrow> get_object h a;
          ts \<leftarrow> read_numbers h (obj_cpu_time_ms ob);
          c \<leftarrow> obj_cpuTime ob;
          ps \<leftarrow> read_plans h (obj_plans ob);
          Some \<lparr> plan_digest = obj_plan_digest ob,
                 cpu_time_ms = ts,
                 exec_count_per_sec = obj_exec_count_per_sec ob,
                 scan_records_per_sec = obj_scan_records_per_sec ob,
                 scan_indexes_per_sec = obj_scan_indexes_per_sec ob,
                 duration_per_exec_ms = obj_duration_per_exec_ms ob,
                 cpuTime = c,
                 is_other = obj_is_other ob,
                 plans = ps \<rparr> }"

text \<open>Concrete store: a plan object and a record object without rates.\<close>

definition plan_obj :: "string option \<Rightarrow> addr option \<Rightarrow> cell" where
  "plan_obj d ta =
     Object \<lparr> obj_plan_digest = d, obj_cpu_time_ms = ta,
       obj_exec_count_per_sec = None, obj_scan_records_per_sec = None,
       obj_scan_indexes_per_sec = None, obj_duration_per_exec_ms = None,
       obj_cpuTime = None, obj_is_other = None, obj_plans = None \<rparr>"

definition row_obj :: "string option \<Rightarrow> addr option \<Rightarrow> int \<Rightarrow> cell" where
  "row_obj d ta c =
     Object \<lparr> obj_plan_digest = d, obj_cpu_time_ms = ta,
       obj_exec_count_per_sec = None, obj_scan_records_per_sec = None,
       obj_scan_indexes_per_sec = None, obj_duration_per_exec_ms = None,
       obj_cpuTime = Some (num_of_int c), obj_is_other = None, obj_plans = None \<rparr>"

definition record_obj :: "addr option \<Rightarrow> cell" where
  "record_obj pa =
     Object \<lparr> obj_plan_digest = None, obj_cpu_time_ms = None,
       obj_exec_count_per_sec = None, obj_scan_records_per_sec = None,
       obj_scan_indexes_per_sec = None, obj_duration_per_exec_ms = None,
       obj_cpuTime = Some (Fin 0), obj_is_other = None, obj_plans = pa \<rparr>"

text \<open>
  The first example of the spec as a store: the two sample arrays, the two plans, the
  \<^verbatim>\<open>plans\<close> array and the record, at the addresses 0 to 5.
\<close>

definition example_heap :: heap where
  "example_heap =
     [Numbers (map num_of_int [1, 2]), Numbers (map num_of_int [5]),
      plan_obj (Some ''a'') (Some 0), plan_obj (Some ''b'') (Some 1),
      Refs [2, 3], record_obj (Some 4)]"

text \<open>The store the derivation leaves when it runs on the example.\<close>

definition example_heap_after :: heap where
  "example_heap_after =
     example_heap @
     [Refs [2, 3],
      row_obj (Some ''a'') (Some 0) 3, row_obj (Some ''b'') (Some 1) 5,
      Refs [8, 7], Refs [11, 8, 7],
      row_obj (Some ''overall'') None 0]"

subsection \<open>What a run leaves in place\<close>

text \<open>The first \<open>n\<close> cells are the same in both stores, and no cell is lost.\<close>

definition keeps :: "nat \<Rightarrow> heap \<Rightarrow> heap \<Rightarrow> bool" where
  "keeps n h h' = (take n h' = take n h \<and> length h \<le> length h')"

text \<open>
  Outside the addresses in \<open>S\<close> every object, and everywhere every number array, that
  can be read from the first store reads the same from the second.
\<close>

definition kept_outside :: "addr set \<Rightarrow> heap \<Rightarrow> heap \<Rightarrow> bool" where
  "kept_outside S h h' =
     ((\<forall>a ob. a \<notin> S \<longrightarrow> get_object h a = Some ob \<longrightarrow> get_object h' a = Some ob) \<and>
      (\<forall>a ns. get_numbers h a = Some ns \<longrightarrow> get_numbers h' a = Some ns) \<and>
      length h \<le> length h')"


section \<open>Vocabulary of the properties\<close>

text \<open>
  The rows that stand for plans: every row of the result but the row of the whole
  statement, which is in front exactly when \<^verbatim>\<open>isMultiPlans\<close> holds.
\<close>

definition plan_rows :: "PlanRecords \<Rightarrow> PlanRecord list" where
  "plan_rows derived = drop (if isMultiPlans derived then 1 else 0) (records derived)"

text \<open>The row derived from one plan: the two \<^verbatim>\<open>map\<close> callbacks one after the other.\<close>

definition derived_row :: "TopsqlSummaryPlanItem \<Rightarrow> PlanRecord" where
  "derived_row p = convertNoPlanRecord (with_cpuTime p)"

text \<open>
  The sum of a list of numbers as the language adds them, one after the other from
  the left, starting from 0.
\<close>

fun sum_to_front :: "number list \<Rightarrow> number" where
  "sum_to_front [] = Fin 0"
| "sum_to_front (x # xs) = num_add (sum_to_front xs) x"

definition left_sum :: "number list \<Rightarrow> number" where
  "left_sum xs = sum_to_front (rev xs)"

text \<open>
  The \<^verbatim>\<open>cpuTime\<close> the samples of a plan call for: 0 without samples, else their sum, with
  0 in place of a sum that is NaN.
\<close>

definition expected_cpuTime :: "number list option \<Rightarrow> number" where
  "expected_cpuTime ts =
     (case ts of
        None \<Rightarrow> Fin 0
      | Some xs \<Rightarrow> (if left_sum xs = NaN then Fin 0 else left_sum xs))"

text \<open>
  What a row has of its plan: the samples and the rates as they are, the digest or, for
  an absent or empty one, the "no-plan" placeholder, and the \<^verbatim>\<open>cpuTime\<close> its samples
  call for.
\<close>

definition row_carries :: "TopsqlSummaryPlanItem \<Rightarrow> PlanRecord \<Rightarrow> bool" where
  "row_carries p row =
     (cpu_time_ms row = cpu_time_ms p \<and>
      exec_count_per_sec row = exec_count_per_sec p \<and>
      scan_records_per_sec row = scan_records_per_sec p \<and>
      scan_indexes_per_sec row = scan_indexes_per_sec p \<and>
      duration_per_exec_ms row = duration_per_exec_ms p \<and>
      plan_digest row =
        (if truthy_string (plan_digest p) then plan_digest p else Some NO_PLAN_LABEL) \<and>
      cpuTime row = expected_cpuTime (cpu_time_ms p))"

text \<open>
  Whole numbers whose running sums, from \<open>acc\<close> on, stay within the range in which
  every whole number is a double.
\<close>

fun safe_sums :: "int \<Rightarrow> int list \<Rightarrow> bool" where
  "safe_sums acc [] = True"
| "safe_sums acc (n # ns) = (\<bar>acc + n\<bar> \<le> 2 ^ 53 \<and> safe_sums (acc + n) ns)"

text \<open>
  Concrete inputs: a plan with a digest and samples and no rates, its samples any
  numbers or whole numbers, a row likewise, and a record of plans.
\<close>

definition plan_with :: "string option \<Rightarrow> number list option \<Rightarrow> TopsqlSummaryPlanItem" where
  "plan_with d ts =
     \<lparr> plan_digest = d, cpu_time_ms = ts, exec_count_per_sec = None,
       scan_records_per_sec = None, scan_indexes_per_sec = None,
       duration_per_exec_ms = None \<rparr>"

definition plan_of :: "string option \<Rightarrow> int list option \<Rightarrow> TopsqlSummaryPlanItem" where
  "plan_of d ts = plan_with d (map_option (map num_of_int) ts)"

definition row_of :: "string option \<Rightarrow> int list option \<Rightarrow> int \<Rightarrow> PlanRecord" where
  "row_of d ts c =
     \<lparr> plan_digest = d, cpu_time_ms = map_option (map num_of_int) ts,
       exec_count_per_sec = None, scan_records_per_sec = None,
       scan_indexes_per_sec = None, duration_per_exec_ms = None,
       cpuTime = num_of_int c \<rparr>"

definition record_of :: "bool option \<Rightarrow> TopsqlSummaryPlanItem list option \<Rightarrow> SQLRecord" where
  "record_of other ps =
     \<lparr> plan_digest = None, cpu_time_ms = None, exec_count_per_sec = None,
       scan_records_per_sec = None, scan_indexes_per_sec = None,
       duration_per_exec_ms = None, cpuTime = Fin 0, is_other = other, plans = ps \<rparr>"

section \<open>Properties of the numbers\<close>

subsection \<open>Rounding keeps the sign\<close>

lemma round_nearest_even_dvd:
  "2 ^ s dvd a \<Longrightarrow> round_nearest_even a s * 2 ^ s = a"
  by (auto simp: round_nearest_even_def Let_def)

lemma round_magnitude_pos:
  assumes "0 < a" shows "0 < round_magnitude a"
proof (cases "bitlen a \<le> 53")
  case True
  with assms show ?thesis by (simp add: round_magnitude_def)
next
  case False
  let ?s = "nat (bitlen a - 53)"
  have "(2::int) ^ ?s \<le> 2 ^ nat (bitlen a - 1)"
    using False by (intro power_increasing) auto
  also have "\<dots> \<le> a" using bitlen_bounds [OF assms] by simp
  finally have le: "2 ^ ?s \<le> a" .
  have "0 < a div 2 ^ ?s"
    using le by (simp add: pos_imp_zdiv_pos_iff)
  then have "0 < round_nearest_even a ?s"
    by (auto simp: round_nearest_even_def Let_def)
  then have "0 < round_nearest_even a ?s * 2 ^ ?s" by simp
  with False show ?thesis by (simp add: round_magnitude_def Let_def)
qed

lemma round_double_0: "round_double 0 = Fin 0"
  by (simp add: round_double_def round_magnitude_def overflow_threshold_def)

lemma num_sgn_round_double: "num_sgn (round_double k) = sgn k"
proof (cases "k = 0")
  case True
  then show ?thesis by (simp add: round_double_0)
next
  case False
  then have "0 < round_magnitude \<bar>k\<bar>" by (intro round_magnitude_pos) simp
  with False show ?thesis by (auto simp: round_double_def Let_def)
qed

lemma round_double_not_NaN: "round_double k \<noteq> NaN"
  by (simp add: round_double_def Let_def)

lemma round_double_not_NegZero: "round_double k \<noteq> NegZero"
  by (simp add: round_double_def Let_def)

subsection \<open>The comparator agrees with the order\<close>

lemma num_sgn_sub:
  "x \<noteq> NaN \<Longrightarrow> y \<noteq> NaN \<Longrightarrow> (num_sgn (num_sub y x) \<le> 0) = num_le y x"
  by (cases x; cases y) (auto simp: num_sub_def num_sgn_round_double sgn_if)

lemma num_sgn_sub_same: "num_sgn (num_sub x x) = 0"
  by (cases x) (auto simp: num_sub_def num_sgn_round_double)

lemma num_sgn_sub_zero:
  "x \<noteq> NaN \<Longrightarrow> y \<noteq> NaN \<Longrightarrow> x \<noteq> NegZero \<Longrightarrow> y \<noteq> NegZero \<Longrightarrow>
     (num_sgn (num_sub y x) = 0) = (x = y)"
  by (cases x; cases y) (auto simp: num_sub_def num_sgn_round_double sgn_if)

lemma num_le_total: "x \<noteq> NaN \<Longrightarrow> y \<noteq> NaN \<Longrightarrow> num_le x y \<or> num_le y x"
  by (cases x; cases y) auto

lemma num_le_trans: "num_le x y \<Longrightarrow> num_le y z \<Longrightarrow> num_le x z"
  by (cases x; cases y; cases z) auto

lemma num_le_refl: "x \<noteq> NaN \<Longrightarrow> num_le x x"
  by (cases x) auto

lemma num_le_antisym:
  "num_le a b \<Longrightarrow> num_le b a \<Longrightarrow> a \<noteq> NegZero \<Longrightarrow> b \<noteq> NegZero \<Longrightarrow> a = b"
  by (cases a; cases b) auto

subsection \<open>Whole numbers add exactly up to 2 to the power 53\<close>

lemma unit_scale_pos: "0 < unit_scale"
  by (simp add: unit_scale_def del: power_numeral)

lemma bitlen_unit_scale: "0 < b \<Longrightarrow> bitlen (b * unit_scale) = bitlen b + 1074"
  unfolding unit_scale_def by (simp del: power_numeral)

lemma dvd_unit_scale: "s \<le> 1074 \<Longrightarrow> (2::int) ^ s dvd unit_scale"
  unfolding unit_scale_def by (rule le_imp_power_dvd)

lemma safe_below_overflow: "2 ^ 53 * unit_scale < overflow_threshold"
proof -
  have "(2::int) ^ 53 * 2 ^ 1074 = 2 ^ 1127"
    by (simp only: power_add [symmetric]) simp
  also have "\<dots> < (2::int) ^ 2098"
    by (rule power_strict_increasing) simp_all
  finally show ?thesis by (simp only: unit_scale_def overflow_threshold_def)
qed

lemma round_double_exact:
  assumes "\<bar>c\<bar> \<le> 2 ^ 53"
  shows "round_double (c * unit_scale) = Fin (c * unit_scale)"
proof (cases "c = 0")
  case True
  then show ?thesis by (simp add: round_double_0)
next
  case False
  let ?a = "\<bar>c\<bar> * unit_scale"
  have abs: "\<bar>c * unit_scale\<bar> = ?a"
    using unit_scale_pos by (simp add: abs_mult)
  have pos: "0 < \<bar>c\<bar>" using False by simp
  have bl: "bitlen ?a = bitlen \<bar>c\<bar> + 1074" using pos by (rule bitlen_unit_scale)
  have m: "round_magnitude ?a = ?a"
  proof (cases "bitlen ?a \<le> 53")
    case True
    then show ?thesis by (simp add: round_magnitude_def)
  next
    case big: False
    let ?s = "nat (bitlen ?a - 53)"
    have "2 ^ ?s dvd ?a"
    proof (cases "\<bar>c\<bar> = 2 ^ 53")
      case True
      have "bitlen 1 = 1" by (subst compute_bitlen) simp
      then have "bitlen ((2::int) ^ 53) = 54"
        using bitlen_pow2 [of 1 53] by (simp del: power_numeral)
      then have s: "?s = 1075" using bl True by simp
      have "(2::int) ^ 1075 dvd 2 ^ 53 * unit_scale"
        unfolding unit_scale_def
        by (simp only: power_add [symmetric]) (rule le_imp_power_dvd, simp)
      then have "(2::int) ^ 1075 dvd ?a" by (simp only: True)
      then show ?thesis by (simp only: s)
    next
      case False
      with assms have "\<bar>c\<bar> < 2 ^ 53" by simp
      then have "bitlen \<bar>c\<bar> \<le> 53"
        by (simp add: bitlen_le_iff_power del: power_numeral)
      then have "?s \<le> 1074" using bl by simp
      then have "(2::int) ^ ?s dvd unit_scale" by (rule dvd_unit_scale)
      then show ?thesis by (rule dvd_mult)
    qed
    then have "round_nearest_even ?a ?s * 2 ^ ?s = ?a" by (rule round_nearest_even_dvd)
    with big show ?thesis by (simp add: round_magnitude_def Let_def)
  qed
  have "?a \<le> 2 ^ 53 * unit_scale"
    using assms unit_scale_pos by (intro mult_right_mono) simp_all
  also note safe_below_overflow
  finally have small: "\<not> overflow_threshold \<le> ?a" by simp
  have apos: "0 < ?a" using pos unit_scale_pos by simp
  show ?thesis
    unfolding round_double_def abs m Let_def using small apos unit_scale_pos
    by (auto simp: abs_if mult_less_0_iff zero_less_mult_iff)
qed

lemma num_add_of_int:
  "\<bar>a + b\<bar> \<le> 2 ^ 53 \<Longrightarrow> num_add (num_of_int a) (num_of_int b) = num_of_int (a + b)"
  using round_double_exact [of "a + b"] by (simp add: num_of_int_def distrib_right)

lemma num_of_int_0: "num_of_int 0 = Fin 0"
  by (simp add: num_of_int_def)

lemma num_add_zero_of_int:
  "\<bar>n\<bar> \<le> 2 ^ 53 \<Longrightarrow> num_add (Fin 0) (num_of_int n) = num_of_int n"
  using num_add_of_int [of 0 n] by (simp add: num_of_int_0)

lemma num_of_int_eq: "(num_of_int a = num_of_int b) = (a = b)"
  using unit_scale_pos by (simp add: num_of_int_def)

lemma num_of_int_eq_zero: "(num_of_int a = Fin 0) = (a = 0)"
  using num_of_int_eq [of a 0] by (simp add: num_of_int_0)

lemma truthy_num_of_int: "truthy_number (num_of_int a) = (a \<noteq> 0)"
  using unit_scale_pos by (simp add: num_of_int_def)

lemma num_sgn_sub_of_int: "num_sgn (num_sub (num_of_int b) (num_of_int a)) = sgn (b - a)"
proof -
  have "num_sgn (num_sub (Fin (b * unit_scale)) (Fin (a * unit_scale)))
      = sgn ((b - a) * unit_scale)"
    using unit_scale_pos
    by (auto simp: num_sub_def num_sgn_round_double left_diff_distrib)
  also have "\<dots> = sgn (b - a)"
    using unit_scale_pos by (simp add: sgn_mult)
  finally show ?thesis by (simp add: num_of_int_def)
qed

lemmas num_eval =
  num_add_of_int num_add_zero_of_int num_of_int_0 num_of_int_eq num_of_int_eq_zero
  truthy_num_of_int num_sgn_sub_of_int

text \<open>
  Beyond that range the double sum of two whole numbers need not be their sum: one
  more than 2 to the power 53 lies halfway between two doubles and goes to the even
  one.
\<close>

lemma num_add_tie:
  "num_add (num_of_int (2 ^ 53)) (num_of_int 1) = num_of_int (2 ^ 53)"
proof -
  let ?k = "(2 ^ 53 + 1) * unit_scale"
  have b1: "bitlen ((2::int) ^ 53 + 1) = 54"
    by code_simp
  have pos: "(0::int) < 2 ^ 53 + 1" by simp
  have bl: "bitlen ?k = 1128"
    using bitlen_unit_scale [OF pos] b1 by simp
  have two: "(2::int) ^ 1075 = 2 * unit_scale"
    unfolding unit_scale_def by (simp only: power_Suc [symmetric]) simp
  have nz: "unit_scale \<noteq> 0" using unit_scale_pos by simp
  have "?k div (2 * unit_scale) = (2 ^ 53 + 1) div 2"
    using nz by (rule div_mult_mult2)
  then have q: "?k div (2 * unit_scale) = 2 ^ 52" by simp
  have "?k mod (2 * unit_scale) = ((2 ^ 53 + 1) mod 2) * unit_scale"
    by (rule mult_mod_left [symmetric])
  then have r: "?k mod (2 * unit_scale) = unit_scale" by simp
  have "round_nearest_even ?k 1075 = (if even ((2::int) ^ 52) then 2 ^ 52 else 2 ^ 52 + 1)"
    by (simp only: round_nearest_even_def two q r Let_def) simp
  then have rne: "round_nearest_even ?k 1075 = 2 ^ 52" by simp
  have "round_magnitude ?k = round_nearest_even ?k 1075 * 2 ^ 1075"
    by (simp add: round_magnitude_def bl Let_def del: power_numeral)
  also have "\<dots> = 2 ^ 52 * (2 * unit_scale)"
    by (simp only: rne two)
  finally have m: "round_magnitude ?k = 2 ^ 53 * unit_scale" by simp
  have kpos: "0 < ?k" using unit_scale_pos by simp
  then have ab: "\<bar>?k\<bar> = ?k" by simp
  have "round_double ?k = Fin (2 ^ 53 * unit_scale)"
    using kpos safe_below_overflow by (simp only: round_double_def ab m Let_def) simp
  moreover have "num_add (num_of_int (2 ^ 53)) (num_of_int 1) = round_double ?k"
    by (simp only: num_of_int_def num_add.simps distrib_right)
  ultimately show ?thesis by (simp only: num_of_int_def)
qed

section \<open>Properties of the derivation\<close>

subsection \<open>The sum of the samples\<close>

lemma foldl_sum_to_front:
  "foldl (\<lambda>pt t. num_add pt t) (sum_to_front ys) xs = sum_to_front (rev xs @ ys)"
proof (induction xs arbitrary: ys)
  case Nil
  then show ?case by simp
next
  case (Cons a xs)
  have "foldl (\<lambda>pt t. num_add pt t) (sum_to_front ys) (a # xs)
      = foldl (\<lambda>pt t. num_add pt t) (sum_to_front (a # ys)) xs"
    by simp
  also have "\<dots> = sum_to_front (rev xs @ a # ys)" by (rule Cons.IH)
  finally show ?case by simp
qed

lemma foldl_left_sum: "foldl (\<lambda>pt t. num_add pt t) (Fin 0) xs = left_sum xs"
  using foldl_sum_to_front [of "[]" xs] by (simp add: left_sum_def)

lemma num_add_NegZero: "num_add x y = NegZero \<Longrightarrow> x = NegZero"
  by (cases x; cases y) (simp_all add: round_double_not_NegZero)

lemma sum_to_front_not_NegZero: "sum_to_front xs \<noteq> NegZero"
  by (induction xs) (auto dest: num_add_NegZero)

lemma left_sum_not_NegZero: "left_sum xs \<noteq> NegZero"
  by (simp add: left_sum_def sum_to_front_not_NegZero)

text \<open>The code's \<^verbatim>\<open>|| 0\<close> changes the sum only where it is NaN.\<close>

lemma sum_cpu_time_expected: "sum_cpu_time ts = expected_cpuTime ts"
proof (cases ts)
  case None
  then show ?thesis by (simp add: sum_cpu_time_def expected_cpuTime_def)
next
  case (Some xs)
  have "(if truthy_number (left_sum xs) then left_sum xs else Fin 0)
      = (if left_sum xs = NaN then Fin 0 else left_sum xs)"
    using left_sum_not_NegZero [of xs] by (cases "left_sum xs") auto
  with Some show ?thesis
    by (simp add: sum_cpu_time_def expected_cpuTime_def foldl_left_sum Let_def)
qed

lemma expected_cpuTime_ordinary:
  "expected_cpuTime ts \<noteq> NaN \<and> expected_cpuTime ts \<noteq> NegZero"
  by (auto simp: expected_cpuTime_def left_sum_not_NegZero split: option.splits)

lemma sum_cpu_time_not_NaN: "sum_cpu_time ts \<noteq> NaN"
  by (simp add: sum_cpu_time_expected expected_cpuTime_ordinary)

lemma foldl_num_of_int:
  "safe_sums acc ns \<Longrightarrow>
   foldl (\<lambda>pt t. num_add pt t) (num_of_int acc) (map num_of_int ns)
     = num_of_int (acc + sum_list ns)"
  by (induction ns arbitrary: acc) (simp_all add: num_add_of_int add.assoc)

lemma left_sum_whole:
  "safe_sums 0 ns \<Longrightarrow> left_sum (map num_of_int ns) = num_of_int (sum_list ns)"
  using foldl_num_of_int [of 0 ns] by (simp add: num_of_int_0 foldl_left_sum)

lemma expected_cpuTime_whole:
  "safe_sums 0 ns \<Longrightarrow> expected_cpuTime (Some (map num_of_int ns)) = num_of_int (sum_list ns)"
  by (simp add: expected_cpuTime_def left_sum_whole num_of_int_def)

subsection \<open>The sort\<close>

lemma mset_sort_insert: "mset (sort_insert c x xs) = add_mset x (mset xs)"
  by (induction xs) simp_all

lemma mset_array_sort: "mset (array_sort c xs) = mset xs"
  by (induction xs) (simp_all add: mset_sort_insert)

lemma set_sort_insert: "set (sort_insert c x xs) = insert x (set xs)"
  by (induction xs) auto

lemma set_array_sort: "set (array_sort c xs) = set xs"
  by (induction xs) (simp_all add: set_sort_insert)

lemma length_array_sort: "length (array_sort c xs) = length xs"
  using mset_array_sort [of c xs] by (metis size_mset)

text \<open>Sorting the images under a map is sorting by the comparator on the images.\<close>

lemma sort_insert_map:
  "map g (sort_insert (\<lambda>x y. c (g x) (g y)) x xs) = sort_insert c (g x) (map g xs)"
  by (induction xs) simp_all

lemma array_sort_map:
  "map g (array_sort (\<lambda>x y. c (g x) (g y)) xs) = array_sort c (map g xs)"
  by (induction xs) (simp_all add: sort_insert_map)

text \<open>
  Inserting keeps a list that descends by \<^verbatim>\<open>cpuTime\<close> descending, where no
  \<^verbatim>\<open>cpuTime\<close> is NaN.
\<close>

lemma sorted_sort_insert:
  assumes "cpuTime x \<noteq> NaN" and "\<forall>y\<in>set xs. cpuTime y \<noteq> NaN"
    and "sorted_wrt (\<lambda>a b. num_le (cpuTime b) (cpuTime a)) xs"
  shows "sorted_wrt (\<lambda>a b. num_le (cpuTime b) (cpuTime a)) (sort_insert by_cpuTime_desc x xs)"
  using assms(2,3)
proof (induction xs)
  case Nil
  then show ?case by simp
next
  case (Cons y ys)
  have y: "cpuTime y \<noteq> NaN" using Cons.prems(1) by simp
  have test: "(num_sgn (by_cpuTime_desc x y) \<le> 0) = num_le (cpuTime y) (cpuTime x)"
    unfolding by_cpuTime_desc_def using assms(1) y by (rule num_sgn_sub)
  show ?case
  proof (cases "num_le (cpuTime y) (cpuTime x)")
    case True
    then have "\<forall>z\<in>set ys. num_le (cpuTime z) (cpuTime x)"
      using Cons.prems(2) by (auto intro: num_le_trans)
    with True Cons.prems(2) show ?thesis by (simp add: test)
  next
    case False
    then have "num_le (cpuTime x) (cpuTime y)"
      using num_le_total [OF assms(1) y] by simp
    with False Cons show ?thesis by (auto simp: test set_sort_insert)
  qed
qed

lemma sorted_array_sort:
  "\<forall>y\<in>set xs. cpuTime y \<noteq> NaN \<Longrightarrow>
   sorted_wrt (\<lambda>a b. num_le (cpuTime b) (cpuTime a)) (array_sort by_cpuTime_desc xs)"
  by (induction xs) (simp_all add: sorted_sort_insert set_array_sort)

text \<open>
  Stability: the rows of one \<^verbatim>\<open>cpuTime\<close> keep their order. The comparator gives zero
  or NaN on equal values, so an inserted row stays in front of its equals.
\<close>

lemma filter_sort_insert_other:
  "cpuTime x \<noteq> k \<Longrightarrow>
   filter (\<lambda>y. cpuTime y = k) (sort_insert by_cpuTime_desc x xs)
     = filter (\<lambda>y. cpuTime y = k) xs"
  by (induction xs) simp_all

lemma filter_sort_insert_same:
  "filter (\<lambda>y. cpuTime y = cpuTime x) (sort_insert by_cpuTime_desc x xs)
     = x # filter (\<lambda>y. cpuTime y = cpuTime x) xs"
proof (induction xs)
  case Nil
  then show ?case by simp
next
  case (Cons y ys)
  show ?case
  proof (cases "num_sgn (by_cpuTime_desc x y) \<le> 0")
    case True
    then show ?thesis by simp
  next
    case False
    then have "cpuTime y \<noteq> cpuTime x"
      using num_sgn_sub_same [of "cpuTime x"] by (auto simp: by_cpuTime_desc_def)
    with False Cons show ?thesis by simp
  qed
qed

lemma array_sort_stable:
  "filter (\<lambda>y. cpuTime y = k) (array_sort by_cpuTime_desc xs)
     = filter (\<lambda>y. cpuTime y = k) xs"
proof (induction xs)
  case Nil
  then show ?case by simp
next
  case (Cons x xs)
  show ?case
  proof (cases "cpuTime x = k")
    case True
    then show ?thesis
      using filter_sort_insert_same [of x "array_sort by_cpuTime_desc xs"] Cons by auto
  next
    case False
    then show ?thesis by (simp add: filter_sort_insert_other Cons)
  qed
qed

text \<open>
  A list that descends by \<^verbatim>\<open>cpuTime\<close> is fixed by the order of the rows of each
  \<^verbatim>\<open>cpuTime\<close>.
\<close>

lemma sorted_stable_unique:
  assumes "sorted_wrt (\<lambda>a b. num_le (cpuTime b) (cpuTime a)) ys"
    and "sorted_wrt (\<lambda>a b. num_le (cpuTime b) (cpuTime a)) zs"
    and "\<forall>k. filter (\<lambda>x. cpuTime x = k) ys = filter (\<lambda>x. cpuTime x = k) zs"
    and "\<forall>x\<in>set ys. cpuTime x \<noteq> NegZero"
  shows "ys = zs"
  using assms
proof (induction ys arbitrary: zs)
  case Nil
  show ?case
  proof (cases zs)
    case Nil
    then show ?thesis by simp
  next
    case (Cons z zs')
    from Nil.prems(3) have "filter (\<lambda>x. cpuTime x = cpuTime z) zs = []"
      by simp
    with Cons show ?thesis by simp
  qed
next
  case (Cons y ys)
  let ?k = "cpuTime y"
  have "filter (\<lambda>x. cpuTime x = ?k) (y # ys) = filter (\<lambda>x. cpuTime x = ?k) zs"
    using Cons.prems(3) by blast
  then have fy: "filter (\<lambda>x. cpuTime x = ?k) zs = y # filter (\<lambda>x. cpuTime x = ?k) ys"
    by simp
  then obtain z zs' where zs: "zs = z # zs'" by (cases zs) auto
  have "y \<in> set (filter (\<lambda>x. cpuTime x = ?k) zs)"
    by (simp only: fy list.set_intros)
  then have y_in: "y \<in> set zs" by simp
  have "filter (\<lambda>x. cpuTime x = cpuTime z) (y # ys) = filter (\<lambda>x. cpuTime x = cpuTime z) zs"
    using Cons.prems(3) by blast
  then have "z \<in> set (filter (\<lambda>x. cpuTime x = cpuTime z) (y # ys))"
    by (simp add: zs)
  then have z_in: "z \<in> set (y # ys)"
    by (simp only: set_filter) simp
  have same: "cpuTime z = ?k"
  proof (cases "y = z")
    case True
    then show ?thesis by simp
  next
    case False
    with y_in zs have "y \<in> set zs'" by simp
    then have a: "num_le ?k (cpuTime z)" using Cons.prems(2) by (simp add: zs)
    from False z_in have "z \<in> set ys" by auto
    then have b: "num_le (cpuTime z) ?k" using Cons.prems(1) by simp
    have "cpuTime z \<noteq> NegZero" and "?k \<noteq> NegZero"
      using Cons.prems(4) z_in by auto
    with a b show ?thesis by (auto dest: num_le_antisym)
  qed
  with fy zs have yz: "y = z" and "filter (\<lambda>x. cpuTime x = ?k) zs' = filter (\<lambda>x. cpuTime x = ?k) ys"
    by auto
  have tails: "\<forall>k. filter (\<lambda>x. cpuTime x = k) ys = filter (\<lambda>x. cpuTime x = k) zs'"
  proof
    fix k
    have "filter (\<lambda>x. cpuTime x = k) (y # ys) = filter (\<lambda>x. cpuTime x = k) (z # zs')"
      using Cons.prems(3) zs by blast
    then show "filter (\<lambda>x. cpuTime x = k) ys = filter (\<lambda>x. cpuTime x = k) zs'"
      using yz by (cases "cpuTime y = k") auto
  qed
  have "ys = zs'"
    using Cons.prems(1,2,4) tails by (intro Cons.IH) (simp_all add: zs)
  with yz zs show ?case by simp
qed

text \<open>
  So the model returns the only list a stable sort can return: whatever list descends
  by \<^verbatim>\<open>cpuTime\<close> and has the rows of each \<^verbatim>\<open>cpuTime\<close> in their order is the
  list \<open>array_sort\<close> computes.
\<close>

lemma array_sort_only_stable_result:
  assumes "\<forall>x\<in>set xs. cpuTime x \<noteq> NaN \<and> cpuTime x \<noteq> NegZero"
    and "sorted_wrt (\<lambda>a b. num_le (cpuTime b) (cpuTime a)) ys"
    and "\<forall>k. filter (\<lambda>x. cpuTime x = k) ys = filter (\<lambda>x. cpuTime x = k) xs"
  shows "ys = array_sort by_cpuTime_desc xs"
proof (rule sorted_stable_unique [OF assms(2)])
  show "sorted_wrt (\<lambda>a b. num_le (cpuTime b) (cpuTime a)) (array_sort by_cpuTime_desc xs)"
    using assms(1) by (intro sorted_array_sort) simp
  show "\<forall>k. filter (\<lambda>x. cpuTime x = k) ys
      = filter (\<lambda>x. cpuTime x = k) (array_sort by_cpuTime_desc xs)"
    using assms(3) by (simp add: array_sort_stable)
  show "\<forall>x\<in>set ys. cpuTime x \<noteq> NegZero"
  proof
    fix x assume "x \<in> set ys"
    then have "x \<in> set (filter (\<lambda>y. cpuTime y = cpuTime x) ys)" by simp
    then have "x \<in> set (filter (\<lambda>y. cpuTime y = cpuTime x) xs)" using assms(3) by simp
    then show "cpuTime x \<noteq> NegZero" using assms(1) by simp
  qed
qed

subsection \<open>What a row has of its plan\<close>

lemma cpuTime_convertNoPlanRecord: "cpuTime (convertNoPlanRecord x) = cpuTime x"
  by (simp add: convertNoPlanRecord_def)

lemma filter_cpuTime_convert:
  "filter (\<lambda>y. cpuTime y = k) (map convertNoPlanRecord xs)
     = map convertNoPlanRecord (filter (\<lambda>y. cpuTime y = k) xs)"
  by (induction xs) (simp_all add: cpuTime_convertNoPlanRecord)

lemma sorted_map_convert:
  "sorted_wrt (\<lambda>a b. num_le (cpuTime b) (cpuTime a)) (map convertNoPlanRecord xs)
     = sorted_wrt (\<lambda>a b. num_le (cpuTime b) (cpuTime a)) xs"
  by (simp add: sorted_wrt_map cpuTime_convertNoPlanRecord)

lemma derived_row_fun: "derived_row = (\<lambda>p. convertNoPlanRecord (with_cpuTime p))"
  by (rule ext) (simp add: derived_row_def)

text \<open>The comparator is zero or NaN on two rows exactly when their \<^verbatim>\<open>cpuTime\<close> is equal.\<close>

lemma by_cpuTime_desc_tie:
  "(num_sgn (by_cpuTime_desc (with_cpuTime p) (with_cpuTime q)) = 0)
     = (cpuTime (with_cpuTime p) = cpuTime (with_cpuTime q))"
  using expected_cpuTime_ordinary [of "cpu_time_ms p"]
    expected_cpuTime_ordinary [of "cpu_time_ms q"]
  by (simp add: by_cpuTime_desc_def with_cpuTime_def sum_cpu_time_expected num_sgn_sub_zero)

lemma cpuTime_derived_row: "cpuTime (derived_row p) = expected_cpuTime (cpu_time_ms p)"
  by (simp add: derived_row_def cpuTime_convertNoPlanRecord with_cpuTime_def
      sum_cpu_time_expected)

lemma row_carries_derived_row: "row_carries p (derived_row p)"
  by (simp add: row_carries_def derived_row_def convertNoPlanRecord_def with_cpuTime_def
      sum_cpu_time_expected)

lemma row_carries_unique: "row_carries p row \<Longrightarrow> row = derived_row p"
  by (cases row)
     (simp add: row_carries_def derived_row_def convertNoPlanRecord_def with_cpuTime_def
        sum_cpu_time_expected)

subsection \<open>The result in closed form\<close>

lemma usePlanRecord_plans:
  "plans r = Some ps \<Longrightarrow>
   usePlanRecord (Some r) =
     \<lparr> isMultiPlans = (1 < length ps),
       records = (if 1 < length ps then [createOverallRecord r] else [])
                 @ map convertNoPlanRecord
                     (array_sort by_cpuTime_desc (map with_cpuTime ps)) \<rparr>"
  by (cases ps) (simp_all add: usePlanRecord_def Let_def)

lemma plan_rows_usePlanRecord:
  "plans r = Some ps \<Longrightarrow>
   plan_rows (usePlanRecord (Some r))
     = map convertNoPlanRecord (array_sort by_cpuTime_desc (map with_cpuTime ps))"
  by (simp add: usePlanRecord_plans plan_rows_def)

text \<open>The rows are the rows of the plans, the plans taken in the sorted order.\<close>

lemma derived_rows_of_sorted_plans:
  "map convertNoPlanRecord (array_sort by_cpuTime_desc (map with_cpuTime ps))
     = map derived_row
         (array_sort (\<lambda>p q. by_cpuTime_desc (with_cpuTime p) (with_cpuTime q)) ps)"
  by (simp add: array_sort_map [symmetric] derived_row_fun)

lemma rows_carry_plans:
  "\<exists>qs. mset qs = mset ps \<and>
        list_all2 row_carries qs
          (map convertNoPlanRecord (array_sort by_cpuTime_desc (map with_cpuTime ps)))"
proof -
  let ?qs = "array_sort (\<lambda>p q. by_cpuTime_desc (with_cpuTime p) (with_cpuTime q)) ps"
  have "mset ?qs = mset ps" by (rule mset_array_sort)
  moreover have "list_all2 row_carries ?qs (map derived_row ?qs)"
    by (simp add: list_all2_map2 list_all2_same row_carries_derived_row)
  ultimately show ?thesis by (auto simp: derived_rows_of_sorted_plans)
qed

lemma sorted_rows:
  "sorted_wrt (\<lambda>a b. num_le (cpuTime b) (cpuTime a))
     (map convertNoPlanRecord (array_sort by_cpuTime_desc (map with_cpuTime ps)))"
proof -
  have "\<forall>y\<in>set (map with_cpuTime ps). cpuTime y \<noteq> NaN"
    by (simp add: with_cpuTime_def sum_cpu_time_not_NaN)
  then show ?thesis
    by (simp only: sorted_map_convert sorted_array_sort)
qed

lemma mset_derived:
  "mset (map f (array_sort c (map g ps))) = mset (map (\<lambda>p. f (g p)) ps)"
  by (simp add: mset_array_sort multiset.map_comp comp_def)

lemma mset_plan_rows:
  "plans r = Some ps \<Longrightarrow> mset (plan_rows (usePlanRecord (Some r))) = mset (map derived_row ps)"
  by (simp only: plan_rows_usePlanRecord mset_derived derived_row_fun)

subsection \<open>The examples of the spec\<close>

lemmas fixture_defs =
  plan_of_def plan_with_def row_of_def record_of_def derived_row_def plan_rows_def
  with_cpuTime_def sum_cpu_time_def convertNoPlanRecord_def createOverallRecord_def
  by_cpuTime_desc_def isOverallRecord_def isNoPlanRecord_def canSelectItem_def
  OVERALL_LABEL_def NO_PLAN_LABEL_def num_eval

lemma example_two_plans:
  "usePlanRecord (Some (record_of None
       (Some [plan_of (Some ''a'') (Some [1, 2]), plan_of (Some ''b'') (Some [5])])))
   = \<lparr> isMultiPlans = True,
       records = [row_of (Some ''overall'') None 0,
                  row_of (Some ''b'') (Some [5]) 5,
                  row_of (Some ''a'') (Some [1, 2]) 3] \<rparr>"
  by (simp add: usePlanRecord_def fixture_defs)

lemma example_empty_digest:
  "usePlanRecord (Some (record_of None (Some [plan_of (Some []) (Some [1])])))
   = \<lparr> isMultiPlans = False, records = [row_of (Some ''no-plan'') (Some [1]) 1] \<rparr>"
  by (simp add: usePlanRecord_def fixture_defs)

subsection \<open>The rows of the result\<close>

text \<open>
  C1. A record with N > 1 plans yields \<^verbatim>\<open>isMultiPlans = true\<close> and N + 1 rows: the
  synthetic "overall" row first, then the N plans, each as the row that carries its
  samples, rates and digest, in descending order of their computed \<^verbatim>\<open>cpuTime\<close>.
\<close>

theorem usePlanRecord_multi:
  assumes "plans r = Some ps" and "1 < length ps"
  shows "isMultiPlans (usePlanRecord (Some r)) \<and>
         length (records (usePlanRecord (Some r))) = length ps + 1 \<and>
         (\<exists>rest qs. records (usePlanRecord (Some r)) = createOverallRecord r # rest \<and>
                 isOverallRecord (createOverallRecord r) \<and>
                 mset qs = mset ps \<and>
                 list_all2 row_carries qs rest \<and>
                 sorted_wrt (\<lambda>a b. num_le (cpuTime b) (cpuTime a)) rest)"
proof -
  let ?rest = "map convertNoPlanRecord (array_sort by_cpuTime_desc (map with_cpuTime ps))"
  have out: "usePlanRecord (Some r) =
      \<lparr> isMultiPlans = True, records = createOverallRecord r # ?rest \<rparr>"
    using assms by (simp add: usePlanRecord_plans)
  from rows_carry_plans [of ps] obtain qs where
    m: "mset qs = mset ps" and c: "list_all2 row_carries qs ?rest"
    by blast
  have s: "sorted_wrt (\<lambda>a b. num_le (cpuTime b) (cpuTime a)) ?rest"
    by (rule sorted_rows)
  have o: "isOverallRecord (createOverallRecord r)"
    by (simp add: isOverallRecord_def createOverallRecord_def)
  have l: "length (records (usePlanRecord (Some r))) = length ps + 1"
    by (simp add: out length_array_sort)
  have "\<exists>rest qs. records (usePlanRecord (Some r)) = createOverallRecord r # rest \<and>
                 isOverallRecord (createOverallRecord r) \<and>
                 mset qs = mset ps \<and>
                 list_all2 row_carries qs rest \<and>
                 sorted_wrt (\<lambda>a b. num_le (cpuTime b) (cpuTime a)) rest"
    using m c s o by (intro exI [of _ ?rest] exI [of _ qs]) (simp add: out)
  with l show ?thesis by (simp add: out)
qed

theorem usePlanRecord_multi_witness:
  "isMultiPlans (usePlanRecord (Some (record_of None
       (Some [plan_of (Some ''a'') (Some [1, 2]), plan_of (Some ''b'') (Some [5])])))) \<and>
   length (records (usePlanRecord (Some (record_of None
       (Some [plan_of (Some ''a'') (Some [1, 2]), plan_of (Some ''b'') (Some [5])])))))
     = 3"
  using usePlanRecord_multi [of "record_of None
       (Some [plan_of (Some ''a'') (Some [1, 2]), plan_of (Some ''b'') (Some [5])])"
      "[plan_of (Some ''a'') (Some [1, 2]), plan_of (Some ''b'') (Some [5])]"]
  by (simp add: record_of_def)

text \<open>
  C2, as amended. Each plan has its row in the result, and the \<^verbatim>\<open>cpuTime\<close> of the row
  is what the samples of the plan call for: 0 when the plan has no \<^verbatim>\<open>cpu_time_ms\<close>
  array, else the sum of the samples as the language adds them, from the left starting
  at 0, with 0 in place of a sum that is NaN. For samples that are whole numbers whose
  running sums stay within 2 to the power 53, that is their exact sum.
\<close>

theorem usePlanRecord_cpuTime:
  assumes "plans r = Some ps"
  shows "(\<exists>qs. mset qs = mset ps \<and>
              list_all2 row_carries qs (plan_rows (usePlanRecord (Some r)))) \<and>
         (\<forall>p row. row_carries p row \<longrightarrow> cpuTime row = expected_cpuTime (cpu_time_ms p)) \<and>
         expected_cpuTime None = Fin 0 \<and>
         (\<forall>ns. safe_sums 0 ns \<longrightarrow>
               expected_cpuTime (Some (map num_of_int ns)) = num_of_int (sum_list ns))"
proof -
  have rows: "\<exists>qs. mset qs = mset ps \<and>
              list_all2 row_carries qs (plan_rows (usePlanRecord (Some r)))"
    using rows_carry_plans [of ps] by (simp add: plan_rows_usePlanRecord [OF assms])
  have carries: "\<forall>p row. row_carries p row \<longrightarrow>
      cpuTime row = expected_cpuTime (cpu_time_ms p)"
    by (simp add: row_carries_def)
  have none: "expected_cpuTime None = Fin 0"
    by (simp add: expected_cpuTime_def)
  from rows carries none expected_cpuTime_whole show ?thesis by blast
qed

theorem usePlanRecord_cpuTime_witness:
  "expected_cpuTime (Some (map num_of_int [1, 2])) = num_of_int 3 \<and>
   expected_cpuTime None = Fin 0"
proof -
  let ?ps = "[plan_of (Some ''a'') (Some [1, 2]), plan_of (Some ''b'') None]"
  have p: "plans (record_of None (Some ?ps)) = Some ?ps"
    by (simp add: record_of_def)
  have s: "safe_sums 0 [1, 2]" by simp
  from usePlanRecord_cpuTime [OF p] s
  have "expected_cpuTime (Some (map num_of_int [1, 2])) = num_of_int (sum_list [1, 2])"
    and "expected_cpuTime None = Fin 0"
    by blast+
  then show ?thesis by simp
qed

text \<open>
  The claim as it is stated, with the sum of the elements and nothing else, fails on
  two inputs. The samples 2 to the power 53 and 1 have the sum 2 to the power 53 plus
  1, which is no double; the code computes 2 to the power 53. A single sample NaN has
  the sum NaN; the code computes 0.
\<close>

theorem usePlanRecord_cpuTime_counterexample:
  "cpuTime (derived_row (plan_of None (Some [2 ^ 53, 1]))) = num_of_int (2 ^ 53) \<and>
   num_of_int (2 ^ 53) \<noteq> num_of_int (sum_list [2 ^ 53, 1]) \<and>
   cpuTime (derived_row (plan_with None (Some [NaN]))) = Fin 0 \<and>
   left_sum [NaN] = NaN"
proof -
  have "sum_cpu_time (Some [num_of_int (2 ^ 53), num_of_int 1]) = num_of_int (2 ^ 53)"
    by (simp add: sum_cpu_time_def num_add_zero_of_int num_add_tie [simplified]
        truthy_num_of_int)
  then have a: "cpuTime (derived_row (plan_of None (Some [2 ^ 53, 1]))) = num_of_int (2 ^ 53)"
    by (simp add: derived_row_def cpuTime_convertNoPlanRecord with_cpuTime_def
        plan_of_def plan_with_def)
  have b: "num_of_int (2 ^ 53) \<noteq> num_of_int (sum_list [2 ^ 53, 1])"
    by (simp add: num_of_int_eq)
  have c: "cpuTime (derived_row (plan_with None (Some [NaN]))) = Fin 0"
    by (simp add: derived_row_def cpuTime_convertNoPlanRecord with_cpuTime_def
        plan_with_def sum_cpu_time_def)
  have d: "left_sum [NaN] = NaN"
    by (simp add: left_sum_def)
  from a b c d show ?thesis by blast
qed

text \<open>
  C3. Among the rows of the plans, those of one computed \<^verbatim>\<open>cpuTime\<close> stand in the
  order their plans have in the \<^verbatim>\<open>plans\<close> array of the record. The code gives the sort
  no second key: the order of equal rows is the order a stable sort leaves, which is the
  sort the spec asks for. The comparator of the code is zero or NaN exactly on rows of
  equal \<^verbatim>\<open>cpuTime\<close>, so these are the rows whose order the sort keeps.
\<close>

theorem usePlanRecord_stable:
  assumes "plans r = Some ps"
  shows "filter (\<lambda>x. cpuTime x = k) (plan_rows (usePlanRecord (Some r)))
           = filter (\<lambda>x. cpuTime x = k) (map derived_row ps)"
proof -
  have "filter (\<lambda>x. cpuTime x = k) (plan_rows (usePlanRecord (Some r)))
      = map convertNoPlanRecord (filter (\<lambda>x. cpuTime x = k) (map with_cpuTime ps))"
    using assms by (simp only: plan_rows_usePlanRecord filter_cpuTime_convert array_sort_stable)
  also have "\<dots> = filter (\<lambda>x. cpuTime x = k) (map convertNoPlanRecord (map with_cpuTime ps))"
    by (simp only: filter_cpuTime_convert)
  also have "map convertNoPlanRecord (map with_cpuTime ps) = map derived_row ps"
    by (simp add: derived_row_fun)
  finally show ?thesis .
qed

theorem usePlanRecord_stable_witness:
  "filter (\<lambda>x. cpuTime x = num_of_int 2)
     (plan_rows (usePlanRecord (Some (record_of None
        (Some [plan_of (Some ''a'') (Some [2]), plan_of (Some ''b'') (Some [5]),
               plan_of (Some ''c'') (Some [1, 1])])))))
   = [row_of (Some ''a'') (Some [2]) 2, row_of (Some ''c'') (Some [1, 1]) 2]"
proof -
  let ?ps = "[plan_of (Some ''a'') (Some [2]), plan_of (Some ''b'') (Some [5]),
              plan_of (Some ''c'') (Some [1, 1])]"
  have p: "plans (record_of None (Some ?ps)) = Some ?ps"
    by (simp add: record_of_def)
  show ?thesis
    unfolding usePlanRecord_stable [OF p, of "num_of_int 2"] by (simp add: fixture_defs)
qed

text \<open>
  C6. A record whose plans list is empty yields no rows and
  \<^verbatim>\<open>isMultiPlans = false\<close>: no synthetic row is added.
\<close>

theorem usePlanRecord_empty:
  "plans r = Some [] \<Longrightarrow>
     usePlanRecord (Some r) = \<lparr> isMultiPlans = False, records = [] \<rparr>"
  by (simp add: usePlanRecord_def)

theorem usePlanRecord_empty_witness:
  "usePlanRecord (Some (record_of None (Some [])))
   = \<lparr> isMultiPlans = False, records = [] \<rparr>"
  by (rule usePlanRecord_empty) (simp add: record_of_def)
text \<open>
  C7. A record with exactly one plan yields exactly one row, the row of that plan, with
  no "overall" row in front, and \<^verbatim>\<open>isMultiPlans = false\<close>.
\<close>

theorem usePlanRecord_single:
  "plans r = Some [p] \<Longrightarrow>
     usePlanRecord (Some r) = \<lparr> isMultiPlans = False, records = [derived_row p] \<rparr>"
  by (simp add: usePlanRecord_plans derived_row_def)

theorem usePlanRecord_single_witness:
  "usePlanRecord (Some (record_of None (Some [plan_of (Some ''a'') (Some [4, 3])])))
   = \<lparr> isMultiPlans = False, records = [row_of (Some ''a'') (Some [4, 3]) 7] \<rparr>"
proof -
  have p: "plans (record_of None (Some [plan_of (Some ''a'') (Some [4, 3])]))
      = Some [plan_of (Some ''a'') (Some [4, 3])]"
    by (simp add: record_of_def)
  show ?thesis
    unfolding usePlanRecord_single [OF p] by (simp add: fixture_defs)
qed

text \<open>
  C4. The row of a plan whose digest is absent or empty is in the result as the
  "no-plan" variant, and the selection predicate of the table refuses the "no-plan"
  rows and the "overall" row.
\<close>

theorem no_plan_not_selectable:
  assumes "plans r = Some ps" and "p \<in> set ps" and "\<not> truthy_string (plan_digest p)"
  shows "derived_row p \<in> set (records (usePlanRecord (Some r))) \<and>
         isNoPlanRecord (derived_row p) \<and>
         \<not> canSelectItem (derived_row p) \<and>
         \<not> canSelectItem (createOverallRecord r) \<and>
         (\<forall>x. canSelectItem x = (\<not> isNoPlanRecord x \<and> \<not> isOverallRecord x))"
proof -
  have "derived_row p \<in> set (map derived_row ps)"
    using assms(2) by simp
  also have "set (map derived_row ps) = set (plan_rows (usePlanRecord (Some r)))"
    using mset_plan_rows [OF assms(1)] by (metis set_mset_mset)
  also have "\<dots> \<subseteq> set (records (usePlanRecord (Some r)))"
    unfolding plan_rows_def by (rule set_drop_subset)
  finally have a: "derived_row p \<in> set (records (usePlanRecord (Some r)))" .
  have b: "isNoPlanRecord (derived_row p)"
    using assms(3)
    by (simp add: isNoPlanRecord_def derived_row_def convertNoPlanRecord_def with_cpuTime_def)
  have c: "isOverallRecord (createOverallRecord r)"
    by (simp add: isOverallRecord_def createOverallRecord_def)
  show ?thesis using a b c by (simp add: canSelectItem_def)
qed

theorem no_plan_not_selectable_witness:
  "derived_row (plan_of None (Some [1]))
     \<in> set (records (usePlanRecord (Some (record_of None
         (Some [plan_of (Some ''a'') (Some [4]), plan_of None (Some [1])]))))) \<and>
   isNoPlanRecord (derived_row (plan_of None (Some [1]))) \<and>
   \<not> canSelectItem (derived_row (plan_of None (Some [1])))"
  using no_plan_not_selectable [of
      "record_of None (Some [plan_of (Some ''a'') (Some [4]), plan_of None (Some [1])])"
      "[plan_of (Some ''a'') (Some [4]), plan_of None (Some [1])]"
      "plan_of None (Some [1])"]
  by (simp add: record_of_def plan_of_def plan_with_def)

section \<open>Properties of the component\<close>

lemma first_item_records:
  "plans r = Some ps \<Longrightarrow> length ps \<le> 1 \<Longrightarrow>
     first_item (records (usePlanRecord (Some r))) = first_item (map derived_row ps)"
  by (cases ps) (simp_all add: usePlanRecord_plans derived_row_def)

text \<open>
  C5. The plan handed to the detail panel is the selected row when the record has more
  than one plan, and the first derived row, whatever the selection, when the record has
  at most one plan: the row of the only plan, or nothing where there is no plan.
\<close>

theorem planRecord_forwarded:
  assumes "plans r = Some ps"
  shows "(1 < length ps \<longrightarrow> planRecord (usePlanRecord (Some r)) sel = sel) \<and>
         (length ps \<le> 1 \<longrightarrow>
            planRecord (usePlanRecord (Some r)) sel
              = first_item (records (usePlanRecord (Some r))) \<and>
            planRecord (usePlanRecord (Some r)) sel = first_item (map derived_row ps)) \<and>
         (\<not> truthy_bool (is_other r) \<longrightarrow>
            ListDetailTable r it sel
              = [CardTable (records (usePlanRecord (Some r))) (tableColumns it),
                 ListDetailContent r (planRecord (usePlanRecord (Some r)) sel)])"
proof -
  have multi: "isMultiPlans (usePlanRecord (Some r)) = (1 < length ps)"
    using assms by (simp add: usePlanRecord_plans)
  have a: "1 < length ps \<longrightarrow> planRecord (usePlanRecord (Some r)) sel = sel"
    by (simp add: planRecord_def multi)
  have b: "length ps \<le> 1 \<longrightarrow>
      planRecord (usePlanRecord (Some r)) sel = first_item (records (usePlanRecord (Some r)))"
    by (simp add: planRecord_def multi)
  have c: "length ps \<le> 1 \<longrightarrow>
      planRecord (usePlanRecord (Some r)) sel = first_item (map derived_row ps)"
    using b first_item_records [OF assms] by simp
  have d: "\<not> truthy_bool (is_other r) \<longrightarrow>
      ListDetailTable r it sel
        = [CardTable (records (usePlanRecord (Some r))) (tableColumns it),
           ListDetailContent r (planRecord (usePlanRecord (Some r)) sel)]"
    by (simp add: ListDetailTable_def Let_def)
  show ?thesis using a b c d by blast
qed

theorem planRecord_forwarded_witness:
  "planRecord (usePlanRecord (Some (record_of None
       (Some [plan_of (Some ''a'') (Some [1, 2]), plan_of (Some ''b'') (Some [5])]))))
     (Some (row_of (Some ''a'') (Some [1, 2]) 3))
   = Some (row_of (Some ''a'') (Some [1, 2]) 3) \<and>
   planRecord (usePlanRecord (Some (record_of None
       (Some [plan_of (Some ''a'') (Some [1, 2])])))) None
   = Some (row_of (Some ''a'') (Some [1, 2]) 3)"
proof -
  let ?a = "plan_of (Some ''a'') (Some [1, 2])"
  let ?b = "plan_of (Some ''b'') (Some [5])"
  have p2: "plans (record_of None (Some [?a, ?b])) = Some [?a, ?b]"
    by (simp add: record_of_def)
  have p1: "plans (record_of None (Some [?a])) = Some [?a]"
    by (simp add: record_of_def)
  have "planRecord (usePlanRecord (Some (record_of None (Some [?a, ?b]))))
          (Some (row_of (Some ''a'') (Some [1, 2]) 3))
        = Some (row_of (Some ''a'') (Some [1, 2]) 3)"
    using planRecord_forwarded [OF p2, where it = tidb] by simp
  moreover have "planRecord (usePlanRecord (Some (record_of None (Some [?a])))) None
        = Some (row_of (Some ''a'') (Some [1, 2]) 3)"
  proof -
    have le: "length [?a] \<le> 1" by simp
    have "planRecord (usePlanRecord (Some (record_of None (Some [?a])))) None
        = first_item (map derived_row [?a])"
      using planRecord_forwarded [OF p1, where sel = None and it = tidb] le by blast
    also have "\<dots> = Some (row_of (Some ''a'') (Some [1, 2]) 3)"
      by (simp add: fixture_defs)
    finally show ?thesis .
  qed
  ultimately show ?thesis by simp
qed

text \<open>
  C10. The detail panel is among the rendered elements exactly when \<^verbatim>\<open>is_other\<close> is
  falsy; for a record flagged \<^verbatim>\<open>is_other\<close> the component renders the table alone.
\<close>

theorem detail_panel_rendered:
  "list_ex isDetailContent (ListDetailTable r it sel) = (\<not> truthy_bool (is_other r)) \<and>
   (is_other r = Some True \<longrightarrow>
      ListDetailTable r it sel
        = [CardTable (records (usePlanRecord (Some r))) (tableColumns it)])"
  by (simp add: ListDetailTable_def Let_def)

theorem detail_panel_rendered_witness:
  "ListDetailTable (record_of (Some True) (Some [plan_of (Some ''a'') (Some [2])])) tidb None
     = [CardTable [row_of (Some ''a'') (Some [2]) 2]
          [''cpuTime'', ''plan'', ''exec_count_per_sec'', ''latency'']] \<and>
   list_ex isDetailContent
     (ListDetailTable (record_of None (Some [plan_of (Some ''a'') (Some [2])])) tidb None)"
proof -
  have o: "is_other (record_of (Some True) (Some [plan_of (Some ''a'') (Some [2])]))
      = Some True"
    by (simp add: record_of_def)
  have "ListDetailTable (record_of (Some True) (Some [plan_of (Some ''a'') (Some [2])]))
          tidb None
        = [CardTable [row_of (Some ''a'') (Some [2]) 2]
             [''cpuTime'', ''plan'', ''exec_count_per_sec'', ''latency'']]"
    using detail_panel_rendered
      [of "record_of (Some True) (Some [plan_of (Some ''a'') (Some [2])])" tidb None] o
    by (simp add: usePlanRecord_def tableColumns_def fixture_defs)
  moreover have "list_ex isDetailContent
     (ListDetailTable (record_of None (Some [plan_of (Some ''a'') (Some [2])])) tidb None)"
    using detail_panel_rendered
      [of "record_of None (Some [plan_of (Some ''a'') (Some [2])])" tidb None]
    by (simp add: record_of_def)
  ultimately show ?thesis by simp
qed

section \<open>Properties of the derivation on a store\<close>

subsection \<open>Cells a run does not touch\<close>

lemma keeps_refl: "keeps n h h"
  by (simp add: keeps_def)

lemma keeps_trans: "keeps n h h1 \<Longrightarrow> keeps n h1 h2 \<Longrightarrow> keeps n h h2"
  by (simp add: keeps_def)

lemma keeps_alloc: "n \<le> length h \<Longrightarrow> keeps n h (h @ [c])"
  by (simp add: keeps_def)

lemma keeps_store: "n \<le> a \<Longrightarrow> keeps n h (store h a c)"
  by (simp add: keeps_def store_def)

lemma get_refs_alloc: "get_refs (h @ [Refs xs]) (length h) = Some xs"
  by (simp add: get_refs_def lookup_def)

lemma get_refs_store: "a < length h \<Longrightarrow> get_refs (store h a (Refs xs)) a = Some xs"
  by (simp add: get_refs_def lookup_def store_def)

lemma get_object_valid: "get_object h a = Some ob \<Longrightarrow> a < length h"
  by (simp add: get_object_def lookup_def split: if_splits)

lemma with_cpuTime_h_Some:
  "with_cpuTime_h h a = Some (h', y) \<Longrightarrow> \<exists>c. h' = h @ [c] \<and> y = length h"
  by (auto simp: with_cpuTime_h_def alloc_def bind_eq_Some_conv)

lemma convertNoPlanRecord_h_Some:
  "convertNoPlanRecord_h h a = Some (h', y) \<Longrightarrow> y = a \<and> (h' = h \<or> (\<exists>c. h' = store h a c))"
  by (auto simp: convertNoPlanRecord_h_def bind_eq_Some_conv split: if_splits)

lemma map_h_keeps:
  assumes f: "\<And>h x h' y. f h x = Some (h', y) \<Longrightarrow> n \<le> length h \<Longrightarrow> P x \<Longrightarrow> keeps n h h'"
  shows "map_h f h xs = Some (h', ys) \<Longrightarrow> n \<le> length h \<Longrightarrow> \<forall>x\<in>set xs. P x \<Longrightarrow> keeps n h h'"
proof (induction xs arbitrary: h ys)
  case Nil
  then show ?case by (simp add: keeps_refl)
next
  case (Cons x xs)
  from Cons.prems(1) obtain h1 y zs where
    s: "f h x = Some (h1, y)" and t: "map_h f h1 xs = Some (h', zs)"
    by (auto simp: bind_eq_Some_conv)
  have k1: "keeps n h h1" using f [OF s Cons.prems(2)] Cons.prems(3) by simp
  then have "n \<le> length h1" using Cons.prems(2) by (simp add: keeps_def)
  then have "keeps n h1 h'" using Cons.IH [OF t] Cons.prems(3) by simp
  with k1 show ?case by (rule keeps_trans)
qed

lemma map_h_with_cpuTime_fresh:
  "map_h with_cpuTime_h h xs = Some (h', ys) \<Longrightarrow>
     length h \<le> length h' \<and> (\<forall>y\<in>set ys. length h \<le> y)"
proof (induction xs arbitrary: h ys)
  case Nil
  then show ?case by simp
next
  case (Cons x xs)
  from Cons.prems obtain h1 y zs where
    s: "with_cpuTime_h h x = Some (h1, y)" and t: "map_h with_cpuTime_h h1 xs = Some (h', zs)"
    and ys: "ys = y # zs"
    by (auto simp: bind_eq_Some_conv)
  from with_cpuTime_h_Some [OF s] have "length h1 = Suc (length h)" and "y = length h"
    by auto
  with Cons.IH [OF t] ys show ?case by auto
qed

lemma keeps_with_cpuTime_h:
  "with_cpuTime_h h x = Some (h', y) \<Longrightarrow> n \<le> length h \<Longrightarrow> keeps n h h'"
  by (auto dest!: with_cpuTime_h_Some simp: keeps_alloc)

lemma keeps_convertNoPlanRecord_h:
  "convertNoPlanRecord_h h x = Some (h', y) \<Longrightarrow> n \<le> x \<Longrightarrow> keeps n h h'"
  by (auto dest!: convertNoPlanRecord_h_Some simp: keeps_store keeps_refl)

lemma array_map_h_Some:
  "array_map_h f h a = Some (h', b) \<Longrightarrow>
     \<exists>xs h1 ys. get_refs h a = Some xs \<and> map_h f h xs = Some (h1, ys) \<and>
                h' = h1 @ [Refs ys] \<and> b = length h1"
  by (auto simp: array_map_h_def alloc_def bind_eq_Some_conv)

lemma array_sort_h_Some:
  "array_sort_h h a = Some h' \<Longrightarrow>
     \<exists>xs zs. get_refs h a = Some xs \<and> h' = store h a (Refs zs) \<and> set zs = set xs"
  by (auto simp: array_sort_h_def bind_eq_Some_conv set_array_sort split: if_splits)

lemma no_records_h_keeps: "no_records_h h = Some (h', m, a) \<Longrightarrow> keeps (length h) h h'"
  by (auto simp: no_records_h_def alloc_def keeps_alloc)

lemma derive_keeps:
  assumes ps: "get_refs h pa = Some ps"
    and m: "array_map_h with_cpuTime_h (h @ [Refs ps]) (length h) = Some (h2, mapped)"
    and s: "array_sort_h h2 mapped = Some h3"
    and c: "array_map_h convertNoPlanRecord_h h3 mapped = Some (h4, recs)"
  shows "keeps (length h) h h4 \<and> length h \<le> recs \<and> recs < length h4"
proof -
  let ?n = "length h"
  let ?h1 = "h @ [Refs ps]"
  from array_map_h_Some [OF m] obtain h2' ys where
    m1: "map_h with_cpuTime_h ?h1 ps = Some (h2', ys)"
    and h2: "h2 = h2' @ [Refs ys]" and mapped: "mapped = length h2'"
    by (auto simp: get_refs_alloc)
  have k1: "keeps ?n h ?h1" by (simp add: keeps_alloc)
  have k2': "keeps ?n ?h1 h2'"
    by (rule map_h_keeps [where P = "\<lambda>_. True", OF _ m1]) (auto intro: keeps_with_cpuTime_h)
  from map_h_with_cpuTime_fresh [OF m1]
  have len2: "length ?h1 \<le> length h2'" and fresh: "\<forall>y\<in>set ys. length ?h1 \<le> y"
    by auto
  have k2: "keeps ?n h2' h2" using len2 by (simp add: h2 keeps_alloc)
  from array_sort_h_Some [OF s] obtain zs where
    h3: "h3 = store h2 mapped (Refs zs)" and zs: "set zs = set ys"
    by (auto simp: h2 mapped get_refs_alloc)
  have k3: "keeps ?n h2 h3" using len2 by (simp add: h3 mapped keeps_store)
  have len3: "?n \<le> length h3" using len2 by (simp add: h3 h2 store_def)
  have "get_refs h3 mapped = Some zs"
    unfolding h3 by (rule get_refs_store) (simp add: h2 mapped)
  with array_map_h_Some [OF c] obtain h4' ws where
    c1: "map_h convertNoPlanRecord_h h3 zs = Some (h4', ws)"
    and h4: "h4 = h4' @ [Refs ws]" and recs: "recs = length h4'"
    by auto
  have k4': "keeps ?n h3 h4'"
  proof (rule map_h_keeps [where P = "\<lambda>x. ?n \<le> x", OF _ c1 len3])
    show "\<forall>x\<in>set zs. ?n \<le> x" using fresh zs by auto
  qed (rule keeps_convertNoPlanRecord_h)
  then have len4: "?n \<le> length h4'" using len3 by (simp add: keeps_def)
  have k4: "keeps ?n h4' h4" using len4 by (simp add: h4 keeps_alloc)
  have "keeps ?n h h4"
    using k1 k2' k2 k3 k4' k4 by (blast intro: keeps_trans)
  then show ?thesis using len4 by (simp add: recs h4)
qed

lemma usePlanRecord_h_keeps:
  assumes "usePlanRecord_h h record = Some (h', m, recs)"
  shows "keeps (length h) h h'"
proof (cases "record")
  case None
  with assms show ?thesis by (simp add: usePlanRecord_h_def no_records_h_keeps)
next
  case (Some ra)
  with assms obtain r where r: "get_object h ra = Some r"
    and rest: "(case obj_plans r of
                 None \<Rightarrow> no_records_h h
               | Some pa \<Rightarrow>
                   do { ps \<leftarrow> get_refs h pa;
                        if length ps = 0 then no_records_h h
                        else
                          do { let isMulti = length ps > 1;
                               let (h1, plans) = alloc h (Refs ps);
                               (h2, mapped) \<leftarrow> array_map_h with_cpuTime_h h1 plans;
                               h3 \<leftarrow> array_sort_h h2 mapped;
                               (h4, recs) \<leftarrow> array_map_h convertNoPlanRecord_h h3 mapped;
                               if isMulti
                               then do { (h5, overall) \<leftarrow> createOverallRecord_h h4 ra;
                                         h6 \<leftarrow> unshift_h h5 recs overall;
                                         Some (h6, isMulti, recs) }
                               else Some (h4, isMulti, recs) } }) = Some (h', m, recs)"
    by (auto simp: usePlanRecord_h_def bind_eq_Some_conv)
  show ?thesis
  proof (cases "obj_plans r")
    case None
    with rest show ?thesis by (simp add: no_records_h_keeps)
  next
    case (Some pa)
    with rest obtain ps where ps: "get_refs h pa = Some ps"
      and rest2: "(if length ps = 0 then no_records_h h
                        else
                          do { let isMulti = length ps > 1;
                               let (h1, plans) = alloc h (Refs ps);
                               (h2, mapped) \<leftarrow> array_map_h with_cpuTime_h h1 plans;
                               h3 \<leftarrow> array_sort_h h2 mapped;
                               (h4, recs) \<leftarrow> array_map_h convertNoPlanRecord_h h3 mapped;
                               if isMulti
                               then do { (h5, overall) \<leftarrow> createOverallRecord_h h4 ra;
                                         h6 \<leftarrow> unshift_h h5 recs overall;
                                         Some (h6, isMulti, recs) }
                               else Some (h4, isMulti, recs) }) = Some (h', m, recs)"
      by (auto simp: bind_eq_Some_conv)
    show ?thesis
    proof (cases "length ps = 0")
      case True
      with rest2 show ?thesis by (simp add: no_records_h_keeps)
    next
      case False
      with rest2 obtain h2 mapped h3 h4 where
        m: "array_map_h with_cpuTime_h (h @ [Refs ps]) (length h) = Some (h2, mapped)"
        and s: "array_sort_h h2 mapped = Some h3"
        and c: "array_map_h convertNoPlanRecord_h h3 mapped = Some (h4, recs)"
        and fin: "(if 1 < length ps
                   then do { (h5, overall) \<leftarrow> createOverallRecord_h h4 ra;
                             h6 \<leftarrow> unshift_h h5 recs overall;
                             Some (h6, 1 < length ps, recs) }
                   else Some (h4, 1 < length ps, recs)) = Some (h', m, recs)"
        by (auto simp: bind_eq_Some_conv alloc_def Let_def split: if_splits)
      from derive_keeps [OF ps m s c]
      have k: "keeps (length h) h h4" and lo: "length h \<le> recs" by auto
      show ?thesis
      proof (cases "1 < length ps")
        case False
        with fin k show ?thesis by simp
      next
        case True
        with fin obtain c x where "h' = store (h4 @ [c]) recs x"
          by (auto simp: bind_eq_Some_conv createOverallRecord_h_def unshift_h_def alloc_def)
        moreover have "keeps (length h) h4 (h4 @ [c])"
          using k by (simp add: keeps_def)
        moreover have "keeps (length h) (h4 @ [c]) (store (h4 @ [c]) recs x)"
          using lo by (rule keeps_store)
        ultimately show ?thesis using k by (blast intro: keeps_trans)
      qed
    qed
  qed
qed

subsection \<open>The run on the store computes the rows\<close>

lemma kept_outside_refl: "kept_outside S h h"
  by (simp add: kept_outside_def)

lemma kept_outside_trans:
  "kept_outside S h h1 \<Longrightarrow> kept_outside T h1 h2 \<Longrightarrow> kept_outside (S \<union> T) h h2"
  by (simp add: kept_outside_def)

lemma kept_outside_alloc: "kept_outside {} h (h @ [c])"
  by (auto simp: kept_outside_def get_object_def get_numbers_def lookup_def nth_append
      split: if_splits option.splits cell.splits)

lemma kept_outside_store_refs:
  "get_refs h a = Some xs \<Longrightarrow> kept_outside {} h (store h a (Refs ys))"
  by (auto simp: kept_outside_def get_object_def get_numbers_def get_refs_def lookup_def
      store_def nth_list_update split: if_splits option.splits cell.splits)

lemma kept_outside_store_object:
  "get_object h a = Some ob \<Longrightarrow> kept_outside {a} h (store h a (Object ob'))"
  by (auto simp: kept_outside_def get_object_def get_numbers_def lookup_def
      store_def nth_list_update split: if_splits option.splits cell.splits)

lemma read_numbers_kept:
  "kept_outside S h h' \<Longrightarrow> read_numbers h ta = Some ts \<Longrightarrow> read_numbers h' ta = Some ts"
  by (auto simp: read_numbers_def kept_outside_def split: option.splits)

lemma read_plan_kept:
  "kept_outside S h h' \<Longrightarrow> a \<notin> S \<Longrightarrow> read_plan h a = Some p \<Longrightarrow> read_plan h' a = Some p"
  by (auto simp: read_plan_def bind_eq_Some_conv kept_outside_def dest: read_numbers_kept
      intro: read_numbers_kept [unfolded kept_outside_def])


lemma read_row_kept:
  assumes "kept_outside S h h'" and "a \<notin> S" and "read_row h a = Some r"
  shows "read_row h' a = Some r"
proof -
  from assms(3) obtain ob ts c where ob: "get_object h a = Some ob"
    and ts: "read_numbers h (obj_cpu_time_ms ob) = Some ts" and c: "obj_cpuTime ob = Some c"
    and r: "r = \<lparr> plan_digest = obj_plan_digest ob, cpu_time_ms = ts,
                 exec_count_per_sec = obj_exec_count_per_sec ob,
                 scan_records_per_sec = obj_scan_records_per_sec ob,
                 scan_indexes_per_sec = obj_scan_indexes_per_sec ob,
                 duration_per_exec_ms = obj_duration_per_exec_ms ob,
                 cpuTime = c \<rparr>"
    by (auto simp: read_row_def bind_eq_Some_conv)
  have "get_object h' a = Some ob"
    using assms(1,2) ob by (simp add: kept_outside_def)
  moreover have "read_numbers h' (obj_cpu_time_ms ob) = Some ts"
    using assms(1) ts by (rule read_numbers_kept)
  ultimately show ?thesis using c r by (simp add: read_row_def)
qed

lemma read_all_list_all2:
  "read_all rd h xs = Some rs \<longleftrightarrow> list_all2 (\<lambda>x r. rd h x = Some r) xs rs"
proof (induction xs arbitrary: rs)
  case Nil
  then show ?case by auto
next
  case (Cons x xs)
  then show ?case
    by (cases rs) (auto simp: bind_eq_Some_conv)
qed

text \<open>The spread of one plan.\<close>

lemma with_cpuTime_h_reads:
  assumes "read_plan h a = Some p"
  shows "\<exists>c. with_cpuTime_h h a = Some (h @ [c], length h) \<and>
             read_row (h @ [c]) (length h) = Some (with_cpuTime p)"
proof -
  from assms obtain ob ts where ob: "get_object h a = Some ob"
    and ts: "read_numbers h (obj_cpu_time_ms ob) = Some ts"
    and p: "p = \<lparr> plan_digest = obj_plan_digest ob, cpu_time_ms = ts,
                 exec_count_per_sec = obj_exec_count_per_sec ob,
                 scan_records_per_sec = obj_scan_records_per_sec ob,
                 scan_indexes_per_sec = obj_scan_indexes_per_sec ob,
                 duration_per_exec_ms = obj_duration_per_exec_ms ob \<rparr>"
    by (auto simp: read_plan_def bind_eq_Some_conv)
  let ?c = "Object (ob\<lparr>obj_cpuTime := Some (sum_cpu_time ts)\<rparr>)"
  have s: "sum_cpu_time_h h (obj_cpu_time_ms ob) = Some (sum_cpu_time ts)"
    using ts by (auto simp: sum_cpu_time_h_def read_numbers_def split: option.splits)
  have w: "with_cpuTime_h h a = Some (h @ [?c], length h)"
    using ob s by (simp add: with_cpuTime_h_def alloc_def)
  have "read_numbers (h @ [?c]) (obj_cpu_time_ms ob) = Some ts"
    using kept_outside_alloc ts by (rule read_numbers_kept)
  then have "read_row (h @ [?c]) (length h) = Some (with_cpuTime p)"
    by (simp add: read_row_def get_object_def lookup_def p with_cpuTime_def)
  with w show ?thesis by blast
qed

lemma map_h_with_cpuTime_reads:
  "list_all2 (\<lambda>x p. read_plan h x = Some p) xs ps \<Longrightarrow>
   \<exists>h' ys. map_h with_cpuTime_h h xs = Some (h', ys) \<and>
           kept_outside {} h h' \<and>
           list_all2 (\<lambda>y r. read_row h' y = Some r) ys (map with_cpuTime ps) \<and>
           distinct ys \<and> (\<forall>y\<in>set ys. length h \<le> y)"
proof (induction xs arbitrary: h ps)
  case Nil
  then show ?case by (simp add: kept_outside_refl)
next
  case (Cons x xs)
  from Cons.prems obtain p ps' where ps: "ps = p # ps'"
    and p: "read_plan h x = Some p"
    and rest: "list_all2 (\<lambda>x p. read_plan h x = Some p) xs ps'"
    by (auto simp: list_all2_Cons1)
  from with_cpuTime_h_reads [OF p] obtain c where
    w: "with_cpuTime_h h x = Some (h @ [c], length h)"
    and row: "read_row (h @ [c]) (length h) = Some (with_cpuTime p)"
    by blast
  let ?h1 = "h @ [c]"
  have k1: "kept_outside {} h ?h1" by (rule kept_outside_alloc)
  have "list_all2 (\<lambda>x p. read_plan ?h1 x = Some p) xs ps'"
    using rest by (rule list_all2_mono) (auto intro: read_plan_kept [OF k1])
  from Cons.IH [OF this] obtain h' zs where
    m: "map_h with_cpuTime_h ?h1 xs = Some (h', zs)"
    and k2: "kept_outside {} ?h1 h'"
    and rows: "list_all2 (\<lambda>y r. read_row h' y = Some r) zs (map with_cpuTime ps')"
    and d: "distinct zs" and fresh: "\<forall>y\<in>set zs. length ?h1 \<le> y"
    by blast
  have "map_h with_cpuTime_h h (x # xs) = Some (h', length h # zs)"
    using w m by simp
  moreover have "kept_outside {} h h'"
    using kept_outside_trans [OF k1 k2] by simp
  moreover have "read_row h' (length h) = Some (with_cpuTime p)"
    using k2 _ row by (rule read_row_kept) simp
  moreover have "length h \<notin> set zs" using fresh by auto
  ultimately show ?case using rows d fresh ps by auto
qed

text \<open>The sort on addresses and the sort on values.\<close>

lemma sort_insert_rel:
  assumes c: "\<And>x x' y y'. R x y \<Longrightarrow> R x' y' \<Longrightarrow> c1 x x' = c2 y y'"
  shows "list_all2 R xs ys \<Longrightarrow> R x y \<Longrightarrow>
         list_all2 R (sort_insert c1 x xs) (sort_insert c2 y ys)"
proof (induction xs ys rule: list_all2_induct)
  case Nil
  then show ?case by simp
next
  case (Cons x' xs y' ys)
  have "c1 x x' = c2 y y'" using Cons.prems Cons.hyps(1) by (rule c)
  then show ?case using Cons by simp
qed

lemma array_sort_rel:
  assumes c: "\<And>x x' y y'. R x y \<Longrightarrow> R x' y' \<Longrightarrow> c1 x x' = c2 y y'"
  shows "list_all2 R xs ys \<Longrightarrow> list_all2 R (array_sort c1 xs) (array_sort c2 ys)"
proof (induction xs ys rule: list_all2_induct)
  case Nil
  then show ?case by simp
next
  case (Cons x xs y ys)
  then show ?case by (simp add: sort_insert_rel [where R = R, OF c])
qed

lemma cpuTime_at_read_row: "read_row h a = Some r \<Longrightarrow> cpuTime_at h a = Some (cpuTime r)"
  by (auto simp: read_row_def cpuTime_at_def bind_eq_Some_conv)

lemma cpuTime_of_read_row: "read_row h a = Some r \<Longrightarrow> cpuTime_of h a = cpuTime r"
  by (simp add: cpuTime_of_def cpuTime_at_read_row)

lemma array_sort_h_reads:
  assumes refs: "get_refs h a = Some ys"
    and rows: "list_all2 (\<lambda>y r. read_row h y = Some r) ys rs"
  shows "\<exists>zs. array_sort_h h a = Some (store h a (Refs zs)) \<and> set zs = set ys \<and>
              distinct zs = distinct ys \<and>
              list_all2 (\<lambda>y r. read_row h y = Some r) zs (array_sort by_cpuTime_desc rs)"
proof -
  let ?zs = "array_sort (\<lambda>x y. num_sub (cpuTime_of h y) (cpuTime_of h x)) ys"
  have "\<forall>y\<in>set ys. \<exists>r. read_row h y = Some r"
    using rows by (auto simp: list_all2_conv_all_nth in_set_conv_nth)
  then have "list_all (\<lambda>x. cpuTime_at h x \<noteq> None) ys"
    by (fastforce simp: list_all_iff dest: cpuTime_at_read_row)
  then have s: "array_sort_h h a = Some (store h a (Refs ?zs))"
    using refs by (simp add: array_sort_h_def)
  have r: "list_all2 (\<lambda>y r. read_row h y = Some r) ?zs (array_sort by_cpuTime_desc rs)"
    using _ rows
  proof (rule array_sort_rel)
    fix x x' y y'
    assume "read_row h x = Some y" and "read_row h x' = Some y'"
    then show "num_sub (cpuTime_of h x') (cpuTime_of h x) = by_cpuTime_desc y y'"
      by (simp add: cpuTime_of_read_row by_cpuTime_desc_def)
  qed
  have "mset ?zs = mset ys" by (rule mset_array_sort)
  then have "distinct ?zs = distinct ys" by (rule mset_eq_imp_distinct_iff)
  with s r show ?thesis by (auto simp: set_array_sort)
qed


text \<open>The conversion in place.\<close>

lemma get_object_store: "a < length h \<Longrightarrow> get_object (store h a (Object ob)) a = Some ob"
  by (simp add: get_object_def lookup_def store_def)

lemma get_object_alloc: "get_object (h @ [Object ob]) (length h) = Some ob"
  by (simp add: get_object_def lookup_def)

lemma convertNoPlanRecord_h_reads:
  assumes "read_row h x = Some r"
  shows "\<exists>h'. convertNoPlanRecord_h h x = Some (h', x) \<and> kept_outside {x} h h' \<and>
              read_row h' x = Some (convertNoPlanRecord r)"
proof -
  from assms obtain ob ts c where ob: "get_object h x = Some ob"
    and ts: "read_numbers h (obj_cpu_time_ms ob) = Some ts" and c: "obj_cpuTime ob = Some c"
    and r: "r = \<lparr> plan_digest = obj_plan_digest ob, cpu_time_ms = ts,
                 exec_count_per_sec = obj_exec_count_per_sec ob,
                 scan_records_per_sec = obj_scan_records_per_sec ob,
                 scan_indexes_per_sec = obj_scan_indexes_per_sec ob,
                 duration_per_exec_ms = obj_duration_per_exec_ms ob,
                 cpuTime = c \<rparr>"
    by (auto simp: read_row_def bind_eq_Some_conv)
  show ?thesis
  proof (cases "truthy_string (obj_plan_digest ob)")
    case True
    then have "convertNoPlanRecord_h h x = Some (h, x)"
      using ob by (simp add: convertNoPlanRecord_h_def)
    moreover have "convertNoPlanRecord r = r"
      using True by (simp add: convertNoPlanRecord_def r)
    ultimately show ?thesis using assms by (auto simp: kept_outside_refl)
  next
    case False
    let ?ob = "ob\<lparr>obj_plan_digest := Some NO_PLAN_LABEL\<rparr>"
    let ?h = "store h x (Object ?ob)"
    have cv: "convertNoPlanRecord_h h x = Some (?h, x)"
      using ob False by (simp add: convertNoPlanRecord_h_def)
    have k: "kept_outside {x} h ?h"
      using ob by (rule kept_outside_store_object)
    have "get_object ?h x = Some ?ob"
      using get_object_valid [OF ob] by (rule get_object_store)
    moreover have "read_numbers ?h (obj_cpu_time_ms ob) = Some ts"
      using k ts by (rule read_numbers_kept)
    ultimately have "read_row ?h x = Some (convertNoPlanRecord r)"
      using False c by (simp add: read_row_def convertNoPlanRecord_def r)
    with cv k show ?thesis by blast
  qed
qed

lemma map_h_convert_reads:
  "list_all2 (\<lambda>y r. read_row h y = Some r) zs rs \<Longrightarrow> distinct zs \<Longrightarrow>
   \<exists>h'. map_h convertNoPlanRecord_h h zs = Some (h', zs) \<and>
        kept_outside (set zs) h h' \<and>
        list_all2 (\<lambda>y r. read_row h' y = Some r) zs (map convertNoPlanRecord rs)"
proof (induction zs arbitrary: h rs)
  case Nil
  then show ?case by (simp add: kept_outside_refl)
next
  case (Cons x zs)
  from Cons.prems(1) obtain r rs' where rs: "rs = r # rs'"
    and r: "read_row h x = Some r"
    and rest: "list_all2 (\<lambda>y r. read_row h y = Some r) zs rs'"
    by (auto simp: list_all2_Cons1)
  from Cons.prems(2) have nx: "x \<notin> set zs" and d: "distinct zs" by auto
  from convertNoPlanRecord_h_reads [OF r] obtain h1 where
    cv: "convertNoPlanRecord_h h x = Some (h1, x)" and k1: "kept_outside {x} h h1"
    and row: "read_row h1 x = Some (convertNoPlanRecord r)"
    by blast
  have "list_all2 (\<lambda>y r. read_row h1 y = Some r) zs rs'"
    using rest
  proof (rule list.rel_mono_strong)
    fix z q
    assume "z \<in> set zs" and "read_row h z = Some q"
    with nx show "read_row h1 z = Some q"
      by (auto intro: read_row_kept [OF k1])
  qed
  from Cons.IH [OF this d] obtain h' where
    m: "map_h convertNoPlanRecord_h h1 zs = Some (h', zs)"
    and k2: "kept_outside (set zs) h1 h'"
    and rows: "list_all2 (\<lambda>y r. read_row h' y = Some r) zs (map convertNoPlanRecord rs')"
    by blast
  have "map_h convertNoPlanRecord_h h (x # zs) = Some (h', x # zs)"
    using cv m by simp
  moreover have "kept_outside (set (x # zs)) h h'"
    using kept_outside_trans [OF k1 k2] by simp
  moreover have "read_row h' x = Some (convertNoPlanRecord r)"
    using k2 nx row by (rule read_row_kept)
  ultimately show ?case using rows rs by auto
qed

text \<open>The three array steps together.\<close>

lemma derive_reads:
  assumes "list_all2 (\<lambda>x p. read_plan h x = Some p) xs ps"
  shows "\<exists>h2 mapped h3 h4 zs.
           array_map_h with_cpuTime_h (h @ [Refs xs]) (length h) = Some (h2, mapped) \<and>
           array_sort_h h2 mapped = Some h3 \<and>
           array_map_h convertNoPlanRecord_h h3 mapped = Some (h4 @ [Refs zs], length h4) \<and>
           kept_outside (set zs) h h4 \<and> (\<forall>z\<in>set zs. length h < z) \<and>
           list_all2 (\<lambda>y r. read_row h4 y = Some r) zs
             (map convertNoPlanRecord (array_sort by_cpuTime_desc (map with_cpuTime ps)))"
proof -
  let ?h1 = "h @ [Refs xs]"
  have k1: "kept_outside {} h ?h1" by (rule kept_outside_alloc)
  have "list_all2 (\<lambda>x p. read_plan ?h1 x = Some p) xs ps"
    using assms by (rule list_all2_mono) (auto intro: read_plan_kept [OF k1])
  from map_h_with_cpuTime_reads [OF this] obtain h2' ys where
    m: "map_h with_cpuTime_h ?h1 xs = Some (h2', ys)"
    and k2': "kept_outside {} ?h1 h2'"
    and rows2': "list_all2 (\<lambda>y r. read_row h2' y = Some r) ys (map with_cpuTime ps)"
    and d: "distinct ys" and fresh: "\<forall>y\<in>set ys. length ?h1 \<le> y"
    by blast
  let ?h2 = "h2' @ [Refs ys]"
  let ?mapped = "length h2'"
  have am: "array_map_h with_cpuTime_h ?h1 (length h) = Some (?h2, ?mapped)"
    using m by (simp add: array_map_h_def get_refs_alloc alloc_def)
  have k2: "kept_outside {} h2' ?h2" by (rule kept_outside_alloc)
  have rows2: "list_all2 (\<lambda>y r. read_row ?h2 y = Some r) ys (map with_cpuTime ps)"
    using rows2' by (rule list_all2_mono) (auto intro: read_row_kept [OF k2])
  have refs2: "get_refs ?h2 ?mapped = Some ys" by (rule get_refs_alloc)
  from array_sort_h_reads [OF refs2 rows2] obtain zs where
    s: "array_sort_h ?h2 ?mapped = Some (store ?h2 ?mapped (Refs zs))"
    and zs: "set zs = set ys" and dz: "distinct zs = distinct ys"
    and rows2s: "list_all2 (\<lambda>y r. read_row ?h2 y = Some r) zs
                  (array_sort by_cpuTime_desc (map with_cpuTime ps))"
    by blast
  let ?h3 = "store ?h2 ?mapped (Refs zs)"
  have k3: "kept_outside {} ?h2 ?h3" using refs2 by (rule kept_outside_store_refs)
  have rows3: "list_all2 (\<lambda>y r. read_row ?h3 y = Some r) zs
                  (array_sort by_cpuTime_desc (map with_cpuTime ps))"
    using rows2s by (rule list_all2_mono) (auto intro: read_row_kept [OF k3])
  have refs3: "get_refs ?h3 ?mapped = Some zs" by (rule get_refs_store) simp
  from map_h_convert_reads [OF rows3] d dz obtain h4 where
    c: "map_h convertNoPlanRecord_h ?h3 zs = Some (h4, zs)"
    and k4: "kept_outside (set zs) ?h3 h4"
    and rows4: "list_all2 (\<lambda>y r. read_row h4 y = Some r) zs
       (map convertNoPlanRecord (array_sort by_cpuTime_desc (map with_cpuTime ps)))"
    by blast
  have ac: "array_map_h convertNoPlanRecord_h ?h3 ?mapped = Some (h4 @ [Refs zs], length h4)"
    using c refs3 by (simp add: array_map_h_def alloc_def)
  have k: "kept_outside (set zs) h h4"
    using kept_outside_trans [OF k1 kept_outside_trans [OF k2'
            kept_outside_trans [OF k2 kept_outside_trans [OF k3 k4]]]]
    by simp
  have "\<forall>z\<in>set zs. length h < z" using fresh zs by auto
  with am s ac k rows4 show ?thesis by blast
qed


lemma no_records_h_reads:
  "no_records_h h = Some (h @ [Refs []], False, length h) \<and>
   read_rows (h @ [Refs []]) (length h) = Some []"
  by (simp add: no_records_h_def alloc_def read_rows_def get_refs_alloc)

lemma usePlanRecord_h_refines:
  assumes "read_record h ra = Some r"
  shows "\<exists>h' recs.
           usePlanRecord_h h (Some ra)
             = Some (h', isMultiPlans (usePlanRecord (Some r)), recs) \<and>
           read_rows h' recs = Some (records (usePlanRecord (Some r)))"
proof -
  from assms obtain ob ts c pso where ob: "get_object h ra = Some ob"
    and ts: "read_numbers h (obj_cpu_time_ms ob) = Some ts" and c: "obj_cpuTime ob = Some c"
    and pl: "read_plans h (obj_plans ob) = Some pso"
    and r: "r = \<lparr> plan_digest = obj_plan_digest ob, cpu_time_ms = ts,
                 exec_count_per_sec = obj_exec_count_per_sec ob,
                 scan_records_per_sec = obj_scan_records_per_sec ob,
                 scan_indexes_per_sec = obj_scan_indexes_per_sec ob,
                 duration_per_exec_ms = obj_duration_per_exec_ms ob,
                 cpuTime = c, is_other = obj_is_other ob, plans = pso \<rparr>"
    by (auto simp: read_record_def bind_eq_Some_conv)
  have plans_r: "plans r = pso" by (simp add: r)
  show ?thesis
  proof (cases "obj_plans ob")
    case None
    with pl have "pso = None" by (simp add: read_plans_def)
    then have "usePlanRecord (Some r) = \<lparr> isMultiPlans = False, records = [] \<rparr>"
      using plans_r by (simp add: usePlanRecord_def)
    moreover have "usePlanRecord_h h (Some ra) = no_records_h h"
      using ob None by (simp add: usePlanRecord_h_def)
    ultimately show ?thesis using no_records_h_reads [of h] by simp
  next
    case (Some pa)
    with pl obtain xs ps where xs: "get_refs h pa = Some xs"
      and ps: "read_all read_plan h xs = Some ps" and pso: "pso = Some ps"
      by (auto simp: read_plans_def bind_eq_Some_conv)
    from ps have rel: "list_all2 (\<lambda>x p. read_plan h x = Some p) xs ps"
      by (simp add: read_all_list_all2)
    then have len: "length xs = length ps" by (rule list_all2_lengthD)
    have pure: "usePlanRecord (Some r) =
       \<lparr> isMultiPlans = (1 < length ps),
         records = (if 1 < length ps then [createOverallRecord r] else [])
                   @ map convertNoPlanRecord
                       (array_sort by_cpuTime_desc (map with_cpuTime ps)) \<rparr>"
      using plans_r pso by (simp add: usePlanRecord_plans)
    show ?thesis
    proof (cases "length xs = 0")
      case True
      then have "usePlanRecord_h h (Some ra) = no_records_h h"
        using ob Some xs by (simp add: usePlanRecord_h_def)
      moreover have "usePlanRecord (Some r) = \<lparr> isMultiPlans = False, records = [] \<rparr>"
        using True len by (simp add: pure)
      ultimately show ?thesis using no_records_h_reads [of h] by simp
    next
      case False
      let ?rows = "map convertNoPlanRecord (array_sort by_cpuTime_desc (map with_cpuTime ps))"
      from derive_reads [OF rel] obtain h2 mapped h3 h4 zs where
        am: "array_map_h with_cpuTime_h (h @ [Refs xs]) (length h) = Some (h2, mapped)"
        and s: "array_sort_h h2 mapped = Some h3"
        and ac: "array_map_h convertNoPlanRecord_h h3 mapped
                   = Some (h4 @ [Refs zs], length h4)"
        and k: "kept_outside (set zs) h h4" and fresh: "\<forall>z\<in>set zs. length h < z"
        and rows: "list_all2 (\<lambda>y r. read_row h4 y = Some r) zs ?rows"
        by blast
      let ?H4 = "h4 @ [Refs zs]"
      let ?recs = "length h4"
      have k4: "kept_outside {} h4 ?H4" by (rule kept_outside_alloc)
      have run: "usePlanRecord_h h (Some ra) =
          (if 1 < length xs
           then do { (h5, overall) \<leftarrow> createOverallRecord_h ?H4 ra;
                     h6 \<leftarrow> unshift_h h5 ?recs overall;
                     Some (h6, True, ?recs) }
           else Some (?H4, False, ?recs))"
        using ob Some xs False am s ac by (simp add: usePlanRecord_h_def alloc_def)
      show ?thesis
      proof (cases "1 < length xs")
        case single: False
        have "list_all2 (\<lambda>y r. read_row ?H4 y = Some r) zs ?rows"
          using rows by (rule list_all2_mono) (auto intro: read_row_kept [OF k4])
        then have "read_rows ?H4 ?recs = Some ?rows"
          by (simp add: read_rows_def get_refs_alloc read_all_list_all2)
        then show ?thesis using single run len by (simp add: pure)
      next
        case multi: True
        have "ra < length h" using ob by (rule get_object_valid)
        then have ra: "ra \<notin> set zs" using fresh by auto
        have ob4: "get_object ?H4 ra = Some ob"
          using kept_outside_trans [OF k k4] ra ob by (simp add: kept_outside_def)
        let ?ov = "\<lparr> obj_plan_digest = Some OVERALL_LABEL,
              obj_cpu_time_ms = obj_cpu_time_ms ob,
              obj_exec_count_per_sec = obj_exec_count_per_sec ob,
              obj_scan_records_per_sec = obj_scan_records_per_sec ob,
              obj_scan_indexes_per_sec = obj_scan_indexes_per_sec ob,
              obj_duration_per_exec_ms = obj_duration_per_exec_ms ob,
              obj_cpuTime = obj_cpuTime ob,
              obj_is_other = None,
              obj_plans = None \<rparr>"
        let ?H5 = "?H4 @ [Object ?ov]"
        let ?overall = "length ?H4"
        let ?H6 = "store ?H5 ?recs (Refs (?overall # zs))"
        have co: "createOverallRecord_h ?H4 ra = Some (?H5, ?overall)"
          using ob4 by (simp add: createOverallRecord_h_def alloc_def)
        have refs5: "get_refs ?H5 ?recs = Some zs"
          by (simp add: get_refs_def lookup_def nth_append)
        then have un: "unshift_h ?H5 ?recs ?overall = Some ?H6"
          by (simp add: unshift_h_def)
        have k5: "kept_outside {} ?H4 ?H5" by (rule kept_outside_alloc)
        have k6: "kept_outside {} ?H5 ?H6" using refs5 by (rule kept_outside_store_refs)
        have k46: "kept_outside {} h4 ?H6"
          using kept_outside_trans [OF k4 kept_outside_trans [OF k5 k6]] by simp
        have k06: "kept_outside (set zs) h ?H6"
          using kept_outside_trans [OF k k46] by simp
        have rows6: "list_all2 (\<lambda>y r. read_row ?H6 y = Some r) zs ?rows"
          using rows
        proof (rule list_all2_mono)
          fix y q
          assume q: "read_row h4 y = Some q"
          show "read_row ?H6 y = Some q"
            by (rule read_row_kept [OF k46 _ q]) simp
        qed
        have "get_object ?H5 ?overall = Some ?ov" by (rule get_object_alloc)
        then have ov6: "get_object ?H6 ?overall = Some ?ov"
          using k6 by (simp add: kept_outside_def)
        have "read_numbers ?H6 (obj_cpu_time_ms ob) = Some ts"
          using k06 ts by (rule read_numbers_kept)
        then have row_ov: "read_row ?H6 ?overall = Some (createOverallRecord r)"
          using ov6 c by (simp add: read_row_def createOverallRecord_def r)
        have g6: "get_refs ?H6 ?recs = Some (?overall # zs)"
          by (rule get_refs_store) simp
        have all6: "read_all read_row ?H6 (?overall # zs)
            = Some (createOverallRecord r # ?rows)"
          unfolding read_all_list_all2 using row_ov rows6 by (rule list.rel_intros)
        have rd: "read_rows ?H6 ?recs = Some (createOverallRecord r # ?rows)"
          by (simp only: read_rows_def g6 all6 Option.bind.simps)
        have run6: "usePlanRecord_h h (Some ra) = Some (?H6, True, ?recs)"
          using run multi co un by simp
        have "isMultiPlans (usePlanRecord (Some r)) = True"
          and "records (usePlanRecord (Some r)) = createOverallRecord r # ?rows"
          using multi len by (simp_all add: pure)
        then show ?thesis
          using run6 rd by (simp only: exI [of _ "?recs"] exI [of _ "?H6"] simp_thms)
      qed
    qed
  qed
qed

subsection \<open>What was in the store stays readable\<close>

lemma lookup_prefix:
  assumes "take (length h) h' = h" and "lookup h a = Some c"
  shows "lookup h' a = Some c"
proof -
  from assms(2) have a: "a < length h" and c: "h ! a = c"
    by (auto simp: lookup_def split: if_splits)
  have "length h = length (take (length h) h')"
    by (simp only: assms(1))
  then have "length h \<le> length h'"
    by simp
  moreover have "h' ! a = take (length h) h' ! a" using a by simp
  ultimately show ?thesis using a c assms(1) by (simp add: lookup_def)
qed

lemma get_object_prefix:
  "take (length h) h' = h \<Longrightarrow> get_object h a = Some ob \<Longrightarrow> get_object h' a = Some ob"
  by (auto simp: get_object_def split: option.splits cell.splits dest: lookup_prefix)

lemma get_refs_prefix:
  "take (length h) h' = h \<Longrightarrow> get_refs h a = Some xs \<Longrightarrow> get_refs h' a = Some xs"
  by (auto simp: get_refs_def split: option.splits cell.splits dest: lookup_prefix)

lemma get_numbers_prefix:
  "take (length h) h' = h \<Longrightarrow> get_numbers h a = Some ns \<Longrightarrow> get_numbers h' a = Some ns"
  by (auto simp: get_numbers_def split: option.splits cell.splits dest: lookup_prefix)

lemma read_numbers_prefix:
  "take (length h) h' = h \<Longrightarrow> read_numbers h ta = Some ts \<Longrightarrow> read_numbers h' ta = Some ts"
  by (auto simp: read_numbers_def split: option.splits dest: get_numbers_prefix)

lemma read_plan_prefix:
  assumes "take (length h) h' = h" and "read_plan h a = Some p"
  shows "read_plan h' a = Some p"
proof -
  from assms(2) obtain ob ts where ob: "get_object h a = Some ob"
    and ts: "read_numbers h (obj_cpu_time_ms ob) = Some ts"
    and p: "p = \<lparr> plan_digest = obj_plan_digest ob, cpu_time_ms = ts,
                 exec_count_per_sec = obj_exec_count_per_sec ob,
                 scan_records_per_sec = obj_scan_records_per_sec ob,
                 scan_indexes_per_sec = obj_scan_indexes_per_sec ob,
                 duration_per_exec_ms = obj_duration_per_exec_ms ob \<rparr>"
    by (auto simp: read_plan_def bind_eq_Some_conv)
  from get_object_prefix [OF assms(1) ob] read_numbers_prefix [OF assms(1) ts] p
  show ?thesis by (simp add: read_plan_def)
qed

lemma read_plans_prefix:
  assumes "take (length h) h' = h" and "read_plans h pa = Some ps"
  shows "read_plans h' pa = Some ps"
proof (cases pa)
  case None
  with assms(2) show ?thesis by (simp add: read_plans_def)
next
  case (Some a)
  with assms(2) obtain xs qs where xs: "get_refs h a = Some xs"
    and qs: "read_all read_plan h xs = Some qs" and ps: "ps = Some qs"
    by (auto simp: read_plans_def bind_eq_Some_conv)
  from qs have "list_all2 (\<lambda>x p. read_plan h x = Some p) xs qs"
    by (simp add: read_all_list_all2)
  then have "list_all2 (\<lambda>x p. read_plan h' x = Some p) xs qs"
    by (rule list_all2_mono) (rule read_plan_prefix [OF assms(1)])
  then have "read_all read_plan h' xs = Some qs"
    by (simp add: read_all_list_all2)
  with get_refs_prefix [OF assms(1) xs] Some ps show ?thesis
    by (simp add: read_plans_def)
qed

lemma read_record_prefix:
  assumes "take (length h) h' = h" and "read_record h a = Some r"
  shows "read_record h' a = Some r"
proof -
  from assms(2) obtain ob ts c ps where ob: "get_object h a = Some ob"
    and ts: "read_numbers h (obj_cpu_time_ms ob) = Some ts" and c: "obj_cpuTime ob = Some c"
    and ps: "read_plans h (obj_plans ob) = Some ps"
    and r: "r = \<lparr> plan_digest = obj_plan_digest ob, cpu_time_ms = ts,
                 exec_count_per_sec = obj_exec_count_per_sec ob,
                 scan_records_per_sec = obj_scan_records_per_sec ob,
                 scan_indexes_per_sec = obj_scan_indexes_per_sec ob,
                 duration_per_exec_ms = obj_duration_per_exec_ms ob,
                 cpuTime = c, is_other = obj_is_other ob, plans = ps \<rparr>"
    by (auto simp: read_record_def bind_eq_Some_conv)
  from get_object_prefix [OF assms(1) ob] read_numbers_prefix [OF assms(1) ts]
    read_plans_prefix [OF assms(1) ps] c r
  show ?thesis by (simp add: read_record_def)
qed

subsection \<open>The claim on the store\<close>

lemmas store_defs =
  usePlanRecord_h_def no_records_h_def array_map_h_def array_sort_h_def
  with_cpuTime_h_def sum_cpu_time_h_def convertNoPlanRecord_h_def
  createOverallRecord_h_def unshift_h_def cpuTime_at_def cpuTime_of_def
  get_object_def get_refs_def get_numbers_def lookup_def alloc_def store_def
  plan_obj_def row_obj_def record_obj_def sum_cpu_time_def
  OVERALL_LABEL_def NO_PLAN_LABEL_def

lemma example_heap_run:
  "usePlanRecord_h example_heap (Some 5) = Some (example_heap_after, True, 10)"
  by (simp add: example_heap_def example_heap_after_def store_defs num_eval Let_def)

lemma example_read:
 "read_record example_heap 5
     = Some (record_of None
         (Some [plan_of (Some ''a'') (Some [1, 2]), plan_of (Some ''b'') (Some [5])]))"
  by (simp add: example_heap_def read_record_def read_plans_def read_plan_def
      read_numbers_def get_object_def get_refs_def get_numbers_def lookup_def
      plan_obj_def record_obj_def record_of_def plan_of_def plan_with_def)

text \<open>
  C9. The derivation leaves its input as it was. Whatever store it runs on, every cell
  that was there before is there after, unchanged: the record, its \<^verbatim>\<open>plans\<close> array
  with the same elements in the same order, every plan and every sample array. The
  derivation writes only to cells it has made itself, so the record read back from the
  store after the run is the record read before.
\<close>

theorem usePlanRecord_h_frame:
  assumes "usePlanRecord_h h record = Some (h', m, recs)"
  shows "take (length h) h' = h \<and>
         (\<forall>a c. lookup h a = Some c \<longrightarrow> lookup h' a = Some c) \<and>
         (\<forall>a r. read_record h a = Some r \<longrightarrow> read_record h' a = Some r)"
proof -
  from usePlanRecord_h_keeps [OF assms] have p: "take (length h) h' = h"
    by (simp add: keeps_def)
  then show ?thesis
    by (blast intro: lookup_prefix read_record_prefix)
qed

theorem usePlanRecord_h_frame_witness:
  "take (length example_heap) example_heap_after = example_heap \<and>
   read_record example_heap_after 5
     = Some (record_of None
         (Some [plan_of (Some ''a'') (Some [1, 2]), plan_of (Some ''b'') (Some [5])]))"
proof -
  from usePlanRecord_h_frame [OF example_heap_run] example_read show ?thesis by blast
qed

section \<open>Properties of the Overview context\<close>

text \<open>
  C8. The Overview context is created with the default value null, and that is what a
  consumer outside every provider reads: a value, not a fault.
\<close>

theorem OverviewContext_default:
  "defaultValue OverviewContext = None \<and> useContext OverviewContext [] = None"
  by (simp add: OverviewContext_def createContext_def)


end
